theory Spec2Isabelle
  imports Main "HOL-Library.Word" "HOL-Library.FSet" "HOL-Library.Multiset" "HOL-Library.Sublist"
begin

section \<open>Primary replication manager: data model\<close>

text \<open>
  The embedding follows \<^verbatim>\<open>src/replication/primary_replication_manager.cpp\<close>.
  Member names keep the source's spelling without the trailing underscore
  (\<^verbatim>\<open>txn_callbacks_\<close> is \<open>txn_callbacks\<close>), which Isabelle does not allow in a name.

  Transaction timestamps, batch identifiers and message identifiers are strong typedefs over
  \<^verbatim>\<open>uint64_t\<close>: 64-bit words, whose \<open>+\<close> wraps around.
\<close>

type_synonym timestamp_t = "64 word"
type_synonym record_batch_id_t = "64 word"
type_synonym msg_id_t = "64 word"

text \<open>
  \<^verbatim>\<open>storage::CommitCallback\<close>: the fields the manager reads. The function pointer and its
  argument are opaque to the manager; they are kept as numbers that name them.
\<close>

record CommitCallback =
  txn_start_time :: timestamp_t
  fn :: nat
  arg :: nat

record BatchOfCommitCallbacks =
  callbacks :: "CommitCallback list"
  has_records :: bool

datatype ReplicationPolicy = DISABLE | ASYNC | SYNC

text \<open>
  \<^verbatim>\<open>storage::BufferedLogWriter\<close> is opaque to the manager. The only thing the manager asks of
  it is \<^verbatim>\<open>MarkSerialized()\<close>, whose answer the buffer carries here.
\<close>

record BufferedLogWriter =
  buffer_contents :: "nat list"
  MarkSerialized :: bool

record ZmqMessage =
  GetRoutingId :: string

record TxnAppliedMsg =
  GetMessageId :: msg_id_t
  GetAppliedTxnId :: timestamp_t

text \<open>What leaves the manager through the messenger.\<close>

datatype outgoing =
    RecordsBatchMsg msg_id_t record_batch_id_t BufferedLogWriter
  | AckMsg msg_id_t msg_id_t

text \<open>
  The three places of the source where a commit callback is called:
  line 52 (\<open>Immediate\<close>, in \<^verbatim>\<open>ReplicateBatchOfRecords\<close>), line 122 (\<open>Drain_no_records\<close>) and
  line 137 (\<open>Drain_applied\<close>), both in \<^verbatim>\<open>ProcessTxnCallbacks\<close>.
\<close>

datatype call_site = Immediate | Drain_no_records | Drain_applied

text \<open>
  The manager. \<open>replicas\<close> holds the keys of the map \<^verbatim>\<open>replicas_\<close> (the replica identities), so
  \<^verbatim>\<open>replicas_.size()\<close> is \<open>fcard (replicas m)\<close>. \<open>txn_callbacks\<close> is the \<^verbatim>\<open>std::queue\<close>, front
  first. \<open>txns_applied_on_replicas\<close> is the \<^verbatim>\<open>unordered_map\<close> from transaction to the
  \<^verbatim>\<open>unordered_set\<close> of replica identities.

  Two fields record the effects of the manager on the outside: \<open>invoked\<close> lists every call
  \<^verbatim>\<open>cb.fn_(cb.arg_)\<close> in the order made, with the place that made it, and \<open>sent\<close> lists the
  messages handed to the messenger, each with its set of destinations.
\<close>

record PrimaryReplicationManager =
  replicas :: "string fset"
  next_msg_id :: msg_id_t
  next_batch_id :: record_batch_id_t
  txn_callbacks :: "BatchOfCommitCallbacks list"
  txns_applied_on_replicas :: "timestamp_t \<rightharpoonup> string fset"
  empty_buffer_queue :: "BufferedLogWriter list"
  invoked :: "(call_site \<times> CommitCallback) list"
  sent :: "(string fset \<times> outgoing) list"

datatype error = AssertionFailure string

section \<open>Operations\<close>

text \<open>
  Modelled from the spec: the macro \<^verbatim>\<open>NOISEPAGE_ASSERT\<close> is not part of these sources. The spec
  calls a failed assertion a fatal contract violation, not a recoverable error: the call ends
  there, with the error.
\<close>

definition NOISEPAGE_ASSERT :: "bool \<Rightarrow> string \<Rightarrow> error + unit" where
  "NOISEPAGE_ASSERT expr message = (if expr then Inr () else Inl (AssertionFailure message))"

text \<open>
  Modelled from the spec: \<^verbatim>\<open>GetNextMessageId\<close> belongs to the base class, which is not part
  of these sources. The spec describes a 64-bit counter of its own, one value per outgoing message.
\<close>

definition GetNextMessageId :: "PrimaryReplicationManager \<Rightarrow> msg_id_t \<times> PrimaryReplicationManager" where
  "GetNextMessageId m = (next_msg_id m, m\<lparr>next_msg_id := next_msg_id m + 1\<rparr>)"

text \<open>
  Modelled from the spec: \<^verbatim>\<open>SendAckForMessage\<close> belongs to the base class too. The spec says
  that the acknowledgement goes back to the sending replica, carries a message identifier of
  its own and echoes the identifier it acknowledges.
\<close>

definition SendAckForMessage ::
  "ZmqMessage \<Rightarrow> TxnAppliedMsg \<Rightarrow> PrimaryReplicationManager \<Rightarrow> PrimaryReplicationManager" where
  "SendAckForMessage zmq_msg msg m =
     (let (ack_id, m1) = GetNextMessageId m
      in m1\<lparr>sent := sent m1 @ [({|GetRoutingId zmq_msg|}, AckMsg ack_id (GetMessageId msg))]\<rparr>)"

text \<open>
  \<^verbatim>\<open>GetNextBatchId\<close> (lines 82 to 88). The constant \<^verbatim>\<open>INVALID_RECORD_BATCH_ID\<close> is declared
  outside these sources and is a parameter here.
\<close>

definition GetNextBatchId ::
  "record_batch_id_t \<Rightarrow> PrimaryReplicationManager \<Rightarrow> record_batch_id_t \<times> PrimaryReplicationManager" where
  "GetNextBatchId INVALID_RECORD_BATCH_ID m =
     (let id = next_batch_id m;
          m1 = m\<lparr>next_batch_id := next_batch_id m + 1\<rparr>;
          m2 = (if next_batch_id m1 = INVALID_RECORD_BATCH_ID
                then m1\<lparr>next_batch_id := next_batch_id m1 + 1\<rparr> else m1)
      in (id, m2))"

text \<open>One call \<^verbatim>\<open>callback.fn_(callback.arg_)\<close>: the callback joins the record of calls.\<close>

definition invoke ::
  "call_site \<Rightarrow> CommitCallback \<Rightarrow> PrimaryReplicationManager \<Rightarrow> PrimaryReplicationManager" where
  "invoke site callback m = m\<lparr>invoked := invoked m @ [(site, callback)]\<rparr>"

text \<open>
  Lines 130 to 132: the transaction has an entry in the table and the entry has as many
  replica identities as there are replicas.
\<close>

definition all_replicas_applied :: "PrimaryReplicationManager \<Rightarrow> CommitCallback \<Rightarrow> bool" where
  "all_replicas_applied m callback =
     (case txns_applied_on_replicas m (txn_start_time callback) of
        None \<Rightarrow> False
      | Some applied \<Rightarrow> fcard applied = fcard (replicas m))"

text \<open>
  Lines 127 to 141: the scan of the head batch's callbacks. The result tells whether the scan
  left through \<^verbatim>\<open>return\<close> (line 134), which callbacks the batch still holds (every
  callback called is erased from the batch, line 140), and the manager.
\<close>

fun scan_callbacks ::
  "CommitCallback list \<Rightarrow> PrimaryReplicationManager
     \<Rightarrow> bool \<times> CommitCallback list \<times> PrimaryReplicationManager" where
  "scan_callbacks [] m = (False, [], m)"
| "scan_callbacks (callback # rest) m =
     (if \<not> all_replicas_applied m callback then (True, callback # rest, m)
      else
        let m1 = invoke Drain_applied callback m;
            m2 = m1\<lparr>txns_applied_on_replicas :=
                      (txns_applied_on_replicas m1)(txn_start_time callback := None)\<rparr>
        in scan_callbacks rest m2)"

text \<open>
  \<^verbatim>\<open>ProcessTxnCallbacks\<close> (lines 112 to 146). Each turn of the \<^verbatim>\<open>while\<close> loop looks at the
  front of the queue; the loop ends when the queue is empty or when the scan returns.
\<close>

function ProcessTxnCallbacks :: "PrimaryReplicationManager \<Rightarrow> PrimaryReplicationManager" where
  "ProcessTxnCallbacks m =
     (case txn_callbacks m of
        [] \<Rightarrow> m
      | item # queue \<Rightarrow>
          if \<not> has_records item then
            ProcessTxnCallbacks ((fold (invoke Drain_no_records) (callbacks item) m)\<lparr>txn_callbacks := queue\<rparr>)
          else
            (case scan_callbacks (callbacks item) m of
               (True, remaining, m1) \<Rightarrow> m1\<lparr>txn_callbacks := item\<lparr>callbacks := remaining\<rparr> # queue\<rparr>
             | (False, remaining, m1) \<Rightarrow> ProcessTxnCallbacks (m1\<lparr>txn_callbacks := queue\<rparr>)))"
  by pat_completeness auto
termination
  by (relation "measure (\<lambda>m. length (txn_callbacks m))") auto

declare ProcessTxnCallbacks.simps [simp del]

text \<open>\<^verbatim>\<open>Handle\<close> for a \<^verbatim>\<open>TxnAppliedMsg\<close> (lines 90 to 110).\<close>

definition Handle ::
  "ZmqMessage \<Rightarrow> TxnAppliedMsg \<Rightarrow> PrimaryReplicationManager \<Rightarrow> PrimaryReplicationManager" where
  "Handle zmq_msg msg m =
     (let m1 = SendAckForMessage zmq_msg msg m;
          txn_id = GetAppliedTxnId msg;
          m2 = (if txns_applied_on_replicas m1 txn_id = None
                then m1\<lparr>txns_applied_on_replicas := (txns_applied_on_replicas m1)(txn_id \<mapsto> {||})\<rparr>
                else m1);
          applied = finsert (GetRoutingId zmq_msg) (the (txns_applied_on_replicas m2 txn_id));
          m3 = m2\<lparr>txns_applied_on_replicas := (txns_applied_on_replicas m2)(txn_id \<mapsto> applied)\<rparr>
      in if fcard applied = fcard (replicas m3) then ProcessTxnCallbacks m3 else m3)"

text \<open>
  \<^verbatim>\<open>ReplicateBatchOfRecords\<close> (lines 32 to 80). A null \<^verbatim>\<open>records_batch\<close> is \<open>None\<close>. The block
  that collects the timestamps (lines 42 to 47) only feeds a trace log and is left out.
\<close>

definition ReplicateBatchOfRecords ::
  "record_batch_id_t \<Rightarrow> BufferedLogWriter option \<Rightarrow> CommitCallback list \<Rightarrow> ReplicationPolicy
     \<Rightarrow> PrimaryReplicationManager \<Rightarrow> error + PrimaryReplicationManager" where
  "ReplicateBatchOfRecords INVALID_RECORD_BATCH_ID records_batch commit_callbacks policy m =
     (case NOISEPAGE_ASSERT (policy \<noteq> DISABLE) ''Replication is disabled, so why are we here?'' of
        Inl e \<Rightarrow> Inl e
      | Inr _ \<Rightarrow>
          let has_recs = (records_batch \<noteq> None);
              m1 = (if policy = ASYNC \<or> \<not> has_recs
                    then fold (invoke Immediate) commit_callbacks m
                    else m\<lparr>txn_callbacks := txn_callbacks m @
                             [\<lparr>callbacks = commit_callbacks, has_records = has_recs\<rparr>]\<rparr>)
          in Inr (case records_batch of
                    None \<Rightarrow> m1
                  | Some buffer \<Rightarrow>
                      let (msg_id, m2) = GetNextMessageId m1;
                          (batch_id, m3) = GetNextBatchId INVALID_RECORD_BATCH_ID m2;
                          m4 = m3\<lparr>sent := sent m3 @ [(replicas m3, RecordsBatchMsg msg_id batch_id buffer)]\<rparr>
                      in if MarkSerialized buffer
                         then m4\<lparr>empty_buffer_queue := empty_buffer_queue m4 @ [buffer]\<rparr>
                         else m4))"

section \<open>Runs of the manager\<close>

text \<open>
  The manager is driven from two sides: the commit path calls \<^verbatim>\<open>ReplicateBatchOfRecords\<close>, and
  \<^verbatim>\<open>EventLoop\<close> hands every \<^verbatim>\<open>TXN_APPLIED\<close> message to \<^verbatim>\<open>Handle\<close>. Both take the
  manager's mutex around the ledger, so a history of the manager is a sequence of such calls.
\<close>

datatype call =
    Replicate "BufferedLogWriter option" "CommitCallback list" ReplicationPolicy
  | TxnApplied ZmqMessage TxnAppliedMsg

fun step ::
  "record_batch_id_t \<Rightarrow> PrimaryReplicationManager \<Rightarrow> call \<Rightarrow> error + PrimaryReplicationManager" where
  "step INVALID_RECORD_BATCH_ID m (Replicate records_batch commit_callbacks policy) =
     ReplicateBatchOfRecords INVALID_RECORD_BATCH_ID records_batch commit_callbacks policy m"
| "step INVALID_RECORD_BATCH_ID m (TxnApplied zmq_msg msg) = Inr (Handle zmq_msg msg m)"

fun run ::
  "record_batch_id_t \<Rightarrow> PrimaryReplicationManager \<Rightarrow> call list \<Rightarrow> error + PrimaryReplicationManager" where
  "run INVALID_RECORD_BATCH_ID m [] = Inr m"
| "run INVALID_RECORD_BATCH_ID m (c # cs) =
     (case step INVALID_RECORD_BATCH_ID m c of
        Inl e \<Rightarrow> Inl e
      | Inr m1 \<Rightarrow> run INVALID_RECORD_BATCH_ID m1 cs)"

text \<open>
  A manager that has handled nothing yet. The class declaration is not part of these sources:
  the queue and the table start empty, as C++ constructs them, no callback has been called,
  and the replica set and the first identifiers are parameters.
\<close>

definition new_manager :: "string fset \<Rightarrow> msg_id_t \<Rightarrow> record_batch_id_t \<Rightarrow> PrimaryReplicationManager" where
  "new_manager replica_ids first_msg_id first_batch_id =
     \<lparr>replicas = replica_ids, next_msg_id = first_msg_id, next_batch_id = first_batch_id,
      txn_callbacks = [], txns_applied_on_replicas = Map.empty, empty_buffer_queue = [],
      invoked = [], sent = []\<rparr>"

text \<open>Successive calls of \<^verbatim>\<open>GetNextBatchId\<close>: the identifiers issued, in order, and the manager.\<close>

fun GetNextBatchId_times ::
  "record_batch_id_t \<Rightarrow> nat \<Rightarrow> PrimaryReplicationManager
     \<Rightarrow> record_batch_id_t list \<times> PrimaryReplicationManager" where
  "GetNextBatchId_times INVALID_RECORD_BATCH_ID 0 m = ([], m)"
| "GetNextBatchId_times INVALID_RECORD_BATCH_ID (Suc k) m =
     (let (id, m1) = GetNextBatchId INVALID_RECORD_BATCH_ID m;
          (ids, m2) = GetNextBatchId_times INVALID_RECORD_BATCH_ID k m1
      in (id # ids, m2))"

section \<open>Observing a run\<close>

text \<open>The callbacks that wait in the queue, front first.\<close>

definition pending :: "PrimaryReplicationManager \<Rightarrow> CommitCallback list" where
  "pending m = concat (map callbacks (txn_callbacks m))"

text \<open>
  The callbacks that \<^verbatim>\<open>ProcessTxnCallbacks\<close> has called so far, in the order called, and the
  callbacks that \<^verbatim>\<open>ReplicateBatchOfRecords\<close> has called itself.
\<close>

definition drained :: "PrimaryReplicationManager \<Rightarrow> CommitCallback list" where
  "drained m = map snd (filter (\<lambda>e. fst e \<noteq> Immediate) (invoked m))"

definition called_at_once :: "PrimaryReplicationManager \<Rightarrow> CommitCallback list" where
  "called_at_once m = map snd (filter (\<lambda>e. fst e = Immediate) (invoked m))"

text \<open>
  What a call hands over, read off the call alone: the batch it queues (policy \<open>SYNC\<close> with a
  record batch), the callbacks it is to call before it returns (policy \<open>ASYNC\<close>, or no record
  batch), and the applied-notification it delivers (sender and transaction).
\<close>

fun queued_by :: "call \<Rightarrow> BatchOfCommitCallbacks list" where
  "queued_by (Replicate records_batch commit_callbacks policy) =
     (if policy = SYNC \<and> records_batch \<noteq> None
      then [\<lparr>callbacks = commit_callbacks, has_records = True\<rparr>] else [])"
| "queued_by (TxnApplied zmq_msg msg) = []"

definition enqueued :: "call list \<Rightarrow> BatchOfCommitCallbacks list" where
  "enqueued cs = concat (map queued_by cs)"

fun released_by :: "call \<Rightarrow> CommitCallback list" where
  "released_by (Replicate records_batch commit_callbacks policy) =
     (if policy = ASYNC \<or> records_batch = None then commit_callbacks else [])"
| "released_by (TxnApplied zmq_msg msg) = []"

fun supplied_by :: "call \<Rightarrow> CommitCallback list" where
  "supplied_by (Replicate records_batch commit_callbacks policy) = commit_callbacks"
| "supplied_by (TxnApplied zmq_msg msg) = []"

fun notification :: "call \<Rightarrow> (string \<times> timestamp_t) list" where
  "notification (Replicate records_batch commit_callbacks policy) = []"
| "notification (TxnApplied zmq_msg msg) = [(GetRoutingId zmq_msg, GetAppliedTxnId msg)]"

definition notifications :: "call list \<Rightarrow> (string \<times> timestamp_t) set" where
  "notifications cs = set (concat (map notification cs))"

section \<open>Closed forms used in the proofs\<close>

text \<open>The table once the entries of the callbacks \<open>fired\<close> are erased (line 138).\<close>

definition erased ::
  "(timestamp_t \<rightharpoonup> string fset) \<Rightarrow> CommitCallback list \<Rightarrow> (timestamp_t \<rightharpoonup> string fset)" where
  "erased tbl fired = (\<lambda>t. if t \<in> txn_start_time ` set fired then None else tbl t)"

text \<open>The calls that one run of \<^verbatim>\<open>ProcessTxnCallbacks\<close> adds to the record.\<close>

definition released :: "PrimaryReplicationManager \<Rightarrow> (call_site \<times> CommitCallback) list" where
  "released m = drop (length (invoked m)) (invoked (ProcessTxnCallbacks m))"

text \<open>Lines 63 to 79: what sending a batch changes.\<close>

definition transmitted ::
  "record_batch_id_t \<Rightarrow> BufferedLogWriter option \<Rightarrow> PrimaryReplicationManager \<Rightarrow> PrimaryReplicationManager" where
  "transmitted invalid_id records_batch m =
     (case records_batch of
        None \<Rightarrow> m
      | Some buffer \<Rightarrow>
          m\<lparr>next_msg_id := next_msg_id m + 1,
            next_batch_id := (if next_batch_id m + 1 = invalid_id then next_batch_id m + 2 else next_batch_id m + 1),
            sent := sent m @ [(replicas m, RecordsBatchMsg (next_msg_id m) (next_batch_id m) buffer)],
            empty_buffer_queue := (if MarkSerialized buffer then empty_buffer_queue m @ [buffer]
                                   else empty_buffer_queue m)\<rparr>)"

text \<open>
  The manager after lines 94 to 103 of \<^verbatim>\<open>Handle\<close>: the acknowledgement is sent and the sender
  is in the transaction's set; the size has not been looked at yet. \<open>complete\<close> is the test of
  line 105, and \<open>freed\<close> lists the calls that \<^verbatim>\<open>Handle\<close> adds to the record.
\<close>

definition marked ::
  "ZmqMessage \<Rightarrow> TxnAppliedMsg \<Rightarrow> PrimaryReplicationManager \<Rightarrow> PrimaryReplicationManager" where
  "marked zmq_msg msg m =
     (SendAckForMessage zmq_msg msg m)\<lparr>txns_applied_on_replicas :=
        (txns_applied_on_replicas m)(GetAppliedTxnId msg \<mapsto>
           finsert (GetRoutingId zmq_msg)
             (case txns_applied_on_replicas m (GetAppliedTxnId msg) of None \<Rightarrow> {||} | Some applied \<Rightarrow> applied))\<rparr>"

definition complete :: "ZmqMessage \<Rightarrow> TxnAppliedMsg \<Rightarrow> PrimaryReplicationManager \<Rightarrow> bool" where
  "complete zmq_msg msg m =
     (fcard (finsert (GetRoutingId zmq_msg)
        (case txns_applied_on_replicas m (GetAppliedTxnId msg) of None \<Rightarrow> {||} | Some applied \<Rightarrow> applied))
      = fcard (replicas m))"

definition freed ::
  "ZmqMessage \<Rightarrow> TxnAppliedMsg \<Rightarrow> PrimaryReplicationManager \<Rightarrow> (call_site \<times> CommitCallback) list" where
  "freed zmq_msg msg m = (if complete zmq_msg msg m then released (marked zmq_msg msg m) else [])"

text \<open>
  A queue whose head batch has lost its first \<open>k\<close> callbacks (they were called and erased);
  the batches behind the head are as they were queued.
\<close>

fun head_released :: "nat \<Rightarrow> BatchOfCommitCallbacks list \<Rightarrow> BatchOfCommitCallbacks list" where
  "head_released k [] = []"
| "head_released k (batch # later) = batch\<lparr>callbacks := drop k (callbacks batch)\<rparr> # later"

text \<open>
  \<open>m'\<close> is \<open>m\<close> with the set \<open>X\<close> entered for transaction \<open>t\<close>, as far as the ledger goes: the
  replicas, the queue and the record of calls are the same.
\<close>

definition with_entry ::
  "timestamp_t \<Rightarrow> string fset \<Rightarrow> PrimaryReplicationManager \<Rightarrow> PrimaryReplicationManager \<Rightarrow> bool" where
  "with_entry t X m m' \<longleftrightarrow>
     replicas m' = replicas m \<and> txn_callbacks m' = txn_callbacks m \<and> invoked m' = invoked m \<and>
     txns_applied_on_replicas m' = (txns_applied_on_replicas m)(t \<mapsto> X)"

text \<open>
  A call concerns transaction \<open>t\<close> when it supplies a callback of \<open>t\<close> or delivers an
  applied-notification for \<open>t\<close>.
\<close>

definition concerns :: "timestamp_t \<Rightarrow> call \<Rightarrow> bool" where
  "concerns t c \<longleftrightarrow>
     t \<in> txn_start_time ` set (supplied_by c) \<or> t \<in> snd ` set (notification c)"

section \<open>Inputs of the examples\<close>

abbreviation example_buffer :: BufferedLogWriter where
  "example_buffer \<equiv> \<lparr>buffer_contents = [7], MarkSerialized = True\<rparr>"

abbreviation callback_of :: "timestamp_t \<Rightarrow> CommitCallback" where
  "callback_of t \<equiv> \<lparr>txn_start_time = t, fn = 1, arg = 1\<rparr>"

abbreviation applied_from :: "string \<Rightarrow> msg_id_t \<Rightarrow> timestamp_t \<Rightarrow> call" where
  "applied_from r i t \<equiv> TxnApplied \<lparr>GetRoutingId = r\<rparr> \<lparr>GetMessageId = i, GetAppliedTxnId = t\<rparr>"

abbreviation two_replicas :: "string fset" where
  "two_replicas \<equiv> {|''replica1'', ''replica2''|}"

abbreviation batch_of :: "CommitCallback list \<Rightarrow> BatchOfCommitCallbacks" where
  "batch_of cbs \<equiv> \<lparr>callbacks = cbs, has_records = True\<rparr>"

abbreviation blocked_manager :: PrimaryReplicationManager where
  "blocked_manager \<equiv> (new_manager two_replicas 1 1)
       \<lparr>next_msg_id := 4, next_batch_id := 3, empty_buffer_queue := [example_buffer, example_buffer],
        txn_callbacks := [batch_of [callback_of 5], batch_of [callback_of 6]],
        txns_applied_on_replicas := [6 \<mapsto> {|''replica1''|}],
        sent := [(two_replicas, RecordsBatchMsg 1 1 example_buffer),
                 (two_replicas, RecordsBatchMsg 2 2 example_buffer),
                 ({|''replica1''|}, AckMsg 3 1)]\<rparr>"

abbreviation fired_manager :: PrimaryReplicationManager where
  "fired_manager \<equiv> (new_manager two_replicas 1 1)
       \<lparr>next_msg_id := 4, next_batch_id := 2, empty_buffer_queue := [example_buffer],
        invoked := [(Drain_applied, callback_of 5)],
        sent := [(two_replicas, RecordsBatchMsg 1 1 example_buffer),
                 ({|''replica1''|}, AckMsg 2 1), ({|''replica2''|}, AckMsg 3 2)]\<rparr>"

abbreviation waiting_manager :: PrimaryReplicationManager where
  "waiting_manager \<equiv> (new_manager two_replicas 1 1)
       \<lparr>next_msg_id := 3, next_batch_id := 2, empty_buffer_queue := [example_buffer],
        txn_callbacks := [batch_of [callback_of 5]],
        txns_applied_on_replicas := [5 \<mapsto> {|''replica1''|}],
        sent := [(two_replicas, RecordsBatchMsg 1 1 example_buffer), ({|''replica1''|}, AckMsg 2 1)]\<rparr>"

section \<open>Properties of the operations\<close>

lemma fold_invoke:
  "fold (invoke site) cbs m = m\<lparr>invoked := invoked m @ map (Pair site) cbs\<rparr>"
  by (induction cbs arbitrary: m) (simp_all add: invoke_def)

lemma erased_Nil [simp]: "erased tbl [] = tbl"
  by (simp add: erased_def)

lemma erased_Cons: "erased (tbl(txn_start_time cb := None)) fired = erased tbl (cb # fired)"
  by (auto simp: erased_def fun_eq_iff)

lemma erased_append: "erased (erased tbl xs) ys = erased tbl (xs @ ys)"
  by (auto simp: erased_def fun_eq_iff)

lemma scan_callbacks_shape:
  "scan_callbacks cbs m = (early, remaining, m1) \<Longrightarrow>
     \<exists>fired. cbs = fired @ remaining \<and> early = (remaining \<noteq> []) \<and>
       m1 = m\<lparr>invoked := invoked m @ map (Pair Drain_applied) fired,
              txns_applied_on_replicas := erased (txns_applied_on_replicas m) fired\<rparr>"
proof (induction cbs arbitrary: m early remaining m1)
  case Nil
  then show ?case by simp
next
  case (Cons cb cbs)
  show ?case
  proof (cases "all_replicas_applied m cb")
    case False
    with Cons.prems show ?thesis by auto
  next
    case True
    let ?m2 = "(invoke Drain_applied cb m)\<lparr>txns_applied_on_replicas :=
                 (txns_applied_on_replicas (invoke Drain_applied cb m))(txn_start_time cb := None)\<rparr>"
    from True Cons.prems have "scan_callbacks cbs ?m2 = (early, remaining, m1)"
      by (simp add: Let_def)
    from Cons.IH [OF this] obtain fired where
      f: "cbs = fired @ remaining" "early = (remaining \<noteq> [])"
         "m1 = ?m2\<lparr>invoked := invoked ?m2 @ map (Pair Drain_applied) fired,
              txns_applied_on_replicas := erased (txns_applied_on_replicas ?m2) fired\<rparr>"
      by blast
    have "cb # cbs = (cb # fired) @ remaining" using f(1) by simp
    moreover have "m1 = m\<lparr>invoked := invoked m @ map (Pair Drain_applied) (cb # fired),
              txns_applied_on_replicas := erased (txns_applied_on_replicas m) (cb # fired)\<rparr>"
      using f(3) by (simp add: invoke_def erased_Cons)
    ultimately show ?thesis using f(2) by blast
  qed
qed

lemma PTC_empty: "txn_callbacks m = [] \<Longrightarrow> ProcessTxnCallbacks m = m"
  by (subst ProcessTxnCallbacks.simps) simp

lemma PTC_no_records:
  "txn_callbacks m = item # queue \<Longrightarrow> \<not> has_records item \<Longrightarrow>
   ProcessTxnCallbacks m =
     ProcessTxnCallbacks ((fold (invoke Drain_no_records) (callbacks item) m)\<lparr>txn_callbacks := queue\<rparr>)"
  by (subst ProcessTxnCallbacks.simps) simp

lemma PTC_return:
  "txn_callbacks m = item # queue \<Longrightarrow> has_records item \<Longrightarrow>
   scan_callbacks (callbacks item) m = (True, remaining, m1) \<Longrightarrow>
   ProcessTxnCallbacks m = m1\<lparr>txn_callbacks := item\<lparr>callbacks := remaining\<rparr> # queue\<rparr>"
  by (subst ProcessTxnCallbacks.simps) simp

lemma PTC_pop:
  "txn_callbacks m = item # queue \<Longrightarrow> has_records item \<Longrightarrow>
   scan_callbacks (callbacks item) m = (False, remaining, m1) \<Longrightarrow>
   ProcessTxnCallbacks m = ProcessTxnCallbacks (m1\<lparr>txn_callbacks := queue\<rparr>)"
  by (subst ProcessTxnCallbacks.simps) simp

lemma PTC_induct [case_names empty no_records return pop]:
  assumes "\<And>m. txn_callbacks m = [] \<Longrightarrow> P m"
    and "\<And>m item queue. txn_callbacks m = item # queue \<Longrightarrow> \<not> has_records item \<Longrightarrow>
           P ((fold (invoke Drain_no_records) (callbacks item) m)\<lparr>txn_callbacks := queue\<rparr>) \<Longrightarrow> P m"
    and "\<And>m item queue remaining m1. txn_callbacks m = item # queue \<Longrightarrow> has_records item \<Longrightarrow>
           scan_callbacks (callbacks item) m = (True, remaining, m1) \<Longrightarrow> P m"
    and "\<And>m item queue remaining m1. txn_callbacks m = item # queue \<Longrightarrow> has_records item \<Longrightarrow>
           scan_callbacks (callbacks item) m = (False, remaining, m1) \<Longrightarrow>
           P (m1\<lparr>txn_callbacks := queue\<rparr>) \<Longrightarrow> P m"
  shows "P m"
proof (induction m rule: ProcessTxnCallbacks.induct)
  case (1 m)
  show ?case
  proof (cases "txn_callbacks m")
    case Nil
    then show ?thesis by (rule assms(1))
  next
    case (Cons item queue)
    show ?thesis
    proof (cases "has_records item")
      case False
      with Cons 1(1) assms(2) show ?thesis by blast
    next
      case True
      obtain early remaining m1 where s: "scan_callbacks (callbacks item) m = (early, remaining, m1)"
        by (cases "scan_callbacks (callbacks item) m") auto
      show ?thesis
      proof (cases early)
        case True
        with s have "scan_callbacks (callbacks item) m = (True, remaining, m1)" by simp
        with Cons \<open>has_records item\<close> show ?thesis by (rule assms(3))
      next
        case False
        with s have s': "scan_callbacks (callbacks item) m = (False, remaining, m1)" by simp
        with Cons \<open>has_records item\<close> have "P (m1\<lparr>txn_callbacks := queue\<rparr>)"
          using 1(2) [of item queue False "(remaining, m1)" remaining m1] by simp
        with Cons \<open>has_records item\<close> s' show ?thesis by (rule assms(4))
      qed
    qed
  qed
qed

lemma all_replicas_applied_erased:
  "all_replicas_applied (m\<lparr>invoked := i, txns_applied_on_replicas := erased (txns_applied_on_replicas m) xs\<rparr>) cb
   \<Longrightarrow> all_replicas_applied m cb"
  by (auto simp: all_replicas_applied_def erased_def split: option.splits if_splits)

lemma scan_callbacks_fired:
  "scan_callbacks cbs m = (early, remaining, m1) \<Longrightarrow>
     \<exists>fired. cbs = fired @ remaining \<and> (\<forall>cb \<in> set fired. all_replicas_applied m cb)"
proof (induction cbs arbitrary: m early remaining m1)
  case Nil
  then show ?case by simp
next
  case (Cons cb cbs)
  show ?case
  proof (cases "all_replicas_applied m cb")
    case False
    with Cons.prems show ?thesis by auto
  next
    case True
    let ?m2 = "m\<lparr>invoked := invoked m @ [(Drain_applied, cb)],
                  txns_applied_on_replicas := erased (txns_applied_on_replicas m) [cb]\<rparr>"
    have e: "erased (txns_applied_on_replicas m) [cb] = (txns_applied_on_replicas m)(txn_start_time cb := None)"
      by (auto simp: erased_def fun_eq_iff)
    from True Cons.prems have "scan_callbacks cbs ?m2 = (early, remaining, m1)"
      by (simp add: Let_def invoke_def e)
    from Cons.IH [OF this] obtain fired where
      f: "cbs = fired @ remaining" "\<forall>c \<in> set fired. all_replicas_applied ?m2 c"
      by blast
    from f(2) have "\<forall>c \<in> set fired. all_replicas_applied m c"
      using all_replicas_applied_erased by blast
    with True f(1) have "cb # cbs = (cb # fired) @ remaining \<and> (\<forall>c \<in> set (cb # fired). all_replicas_applied m c)"
      by simp
    then show ?thesis by blast
  qed
qed

lemma scan_callbacks_full:
  assumes "scan_callbacks cbs m = (early, remaining, m1)"
  obtains fired where "cbs = fired @ remaining" "early = (remaining \<noteq> [])"
    "m1 = m\<lparr>invoked := invoked m @ map (Pair Drain_applied) fired,
            txns_applied_on_replicas := erased (txns_applied_on_replicas m) fired\<rparr>"
    "\<forall>cb \<in> set fired. all_replicas_applied m cb"
proof -
  from scan_callbacks_shape [OF assms] obtain f1 where
    a: "cbs = f1 @ remaining" "early = (remaining \<noteq> [])"
    "m1 = m\<lparr>invoked := invoked m @ map (Pair Drain_applied) f1,
            txns_applied_on_replicas := erased (txns_applied_on_replicas m) f1\<rparr>" by blast
  from scan_callbacks_fired [OF assms] obtain f2 where
    b: "cbs = f2 @ remaining" "\<forall>cb \<in> set f2. all_replicas_applied m cb" by blast
  from a(1) b(1) have "f1 = f2" by simp
  with a b that show ?thesis by blast
qed

lemma scan_callbacks_blocked:
  "scan_callbacks cbs m = (True, remaining, m1) \<Longrightarrow>
     remaining \<noteq> [] \<and> \<not> all_replicas_applied m1 (hd remaining)"
proof (induction cbs arbitrary: m)
  case Nil
  then show ?case by simp
next
  case (Cons cb cbs)
  then show ?case by (auto simp: Let_def split: if_splits)
qed

lemma PTC_frame:
  "replicas (ProcessTxnCallbacks m) = replicas m \<and>
   next_msg_id (ProcessTxnCallbacks m) = next_msg_id m \<and>
   next_batch_id (ProcessTxnCallbacks m) = next_batch_id m \<and>
   empty_buffer_queue (ProcessTxnCallbacks m) = empty_buffer_queue m \<and>
   sent (ProcessTxnCallbacks m) = sent m"
proof (induction m rule: PTC_induct)
  case (empty m)
  then show ?case by (simp add: PTC_empty)
next
  case (no_records m item queue)
  then show ?case by (simp add: PTC_no_records fold_invoke)
next
  case (return m item queue remaining m1)
  from return(3) obtain fired where
    "m1 = m\<lparr>invoked := invoked m @ map (Pair Drain_applied) fired,
            txns_applied_on_replicas := erased (txns_applied_on_replicas m) fired\<rparr>"
    by (rule scan_callbacks_full)
  then show ?case by (simp add: PTC_return [OF return(1,2,3)])
next
  case (pop m item queue remaining m1)
  from pop(3) obtain fired where
    "m1 = m\<lparr>invoked := invoked m @ map (Pair Drain_applied) fired,
            txns_applied_on_replicas := erased (txns_applied_on_replicas m) fired\<rparr>"
    by (rule scan_callbacks_full)
  with pop(4) show ?case by (simp add: PTC_pop [OF pop(1,2,3)])
qed

lemma PTC_invoked_prefix: "\<exists>ev. invoked (ProcessTxnCallbacks m) = invoked m @ ev"
proof (induction m rule: PTC_induct)
  case (empty m)
  then show ?case by (simp add: PTC_empty)
next
  case (no_records m item queue)
  then show ?case by (auto simp: PTC_no_records fold_invoke)
next
  case (return m item queue remaining m1)
  from return(3) obtain fired where
    "m1 = m\<lparr>invoked := invoked m @ map (Pair Drain_applied) fired,
            txns_applied_on_replicas := erased (txns_applied_on_replicas m) fired\<rparr>"
    by (rule scan_callbacks_full)
  then show ?case by (simp add: PTC_return [OF return(1,2,3)])
next
  case (pop m item queue remaining m1)
  from pop(3) obtain fired where
    "m1 = m\<lparr>invoked := invoked m @ map (Pair Drain_applied) fired,
            txns_applied_on_replicas := erased (txns_applied_on_replicas m) fired\<rparr>"
    by (rule scan_callbacks_full)
  with pop(4) show ?case by (auto simp: PTC_pop [OF pop(1,2,3)])
qed

lemma PTC_invoked: "invoked (ProcessTxnCallbacks m) = invoked m @ released m"
  using PTC_invoked_prefix [of m] by (auto simp: released_def)

lemma released_empty: "txn_callbacks m = [] \<Longrightarrow> released m = []"
  by (simp add: released_def PTC_empty)

lemma released_no_records:
  assumes "txn_callbacks m = item # queue" "\<not> has_records item"
  shows "released m = map (Pair Drain_no_records) (callbacks item) @
     released ((fold (invoke Drain_no_records) (callbacks item) m)\<lparr>txn_callbacks := queue\<rparr>)"
proof -
  define m' where "m' = (fold (invoke Drain_no_records) (callbacks item) m)\<lparr>txn_callbacks := queue\<rparr>"
  obtain ev where ev: "invoked (ProcessTxnCallbacks m') = invoked m' @ ev"
    using PTC_invoked_prefix by blast
  have i: "invoked m' = invoked m @ map (Pair Drain_no_records) (callbacks item)"
    by (simp add: m'_def fold_invoke)
  have "released m' = ev" by (simp add: released_def ev)
  moreover have "ProcessTxnCallbacks m = ProcessTxnCallbacks m'"
    unfolding m'_def by (rule PTC_no_records [OF assms])
  then have "released m = map (Pair Drain_no_records) (callbacks item) @ ev"
    by (simp add: released_def ev i)
  ultimately show ?thesis by (simp add: m'_def)
qed

lemma released_return:
  assumes "txn_callbacks m = item # queue" "has_records item"
    "scan_callbacks (callbacks item) m = (True, remaining, m1)"
    "callbacks item = fired @ remaining"
  shows "released m = map (Pair Drain_applied) fired"
proof -
  from assms(3) obtain f where f: "callbacks item = f @ remaining"
    "m1 = m\<lparr>invoked := invoked m @ map (Pair Drain_applied) f,
            txns_applied_on_replicas := erased (txns_applied_on_replicas m) f\<rparr>"
    by (rule scan_callbacks_full)
  from f(1) assms(4) have "f = fired" by simp
  with f(2) show ?thesis
    by (simp add: released_def PTC_return [OF assms(1,2,3)])
qed

lemma released_pop:
  assumes "txn_callbacks m = item # queue" "has_records item"
    "scan_callbacks (callbacks item) m = (False, remaining, m1)"
  shows "released m = map (Pair Drain_applied) (callbacks item) @ released (m1\<lparr>txn_callbacks := queue\<rparr>)"
proof -
  let ?m' = "m1\<lparr>txn_callbacks := queue\<rparr>"
  from assms(3) obtain f where f: "callbacks item = f @ remaining" "False = (remaining \<noteq> [])"
    "m1 = m\<lparr>invoked := invoked m @ map (Pair Drain_applied) f,
            txns_applied_on_replicas := erased (txns_applied_on_replicas m) f\<rparr>"
    by (rule scan_callbacks_full)
  obtain ev where ev: "invoked (ProcessTxnCallbacks ?m') = invoked ?m' @ ev"
    using PTC_invoked_prefix by blast
  have "released ?m' = ev" by (simp add: released_def ev)
  moreover have "invoked ?m' = invoked m @ map (Pair Drain_applied) (callbacks item)"
    using f by simp
  then have "released m = map (Pair Drain_applied) (callbacks item) @ ev"
    by (simp add: released_def PTC_pop [OF assms] ev)
  ultimately show ?thesis by simp
qed

lemma PTC_pending: "map snd (released m) @ pending (ProcessTxnCallbacks m) = pending m"
proof (induction m rule: PTC_induct)
  case (empty m)
  then show ?case by (simp add: PTC_empty released_empty)
next
  case (no_records m item queue)
  then show ?case
    by (simp add: PTC_no_records released_no_records pending_def comp_def)
next
  case (return m item queue remaining m1)
  from return(3) obtain fired where f: "callbacks item = fired @ remaining"
    by (rule scan_callbacks_full)
  with return show ?case
    by (simp add: PTC_return released_return [OF return f(1)] pending_def comp_def)
next
  case (pop m item queue remaining m1)
  from pop(3) obtain fired where f: "callbacks item = fired @ remaining" "False = (remaining \<noteq> [])"
    by (rule scan_callbacks_full)
  with pop show ?case
    by (simp add: PTC_pop released_pop [OF pop(1,2,3)] pending_def comp_def)
qed

lemma released_not_Immediate: "e \<in> set (released m) \<Longrightarrow> fst e \<noteq> Immediate"
proof (induction m rule: PTC_induct)
  case (empty m)
  then show ?case by (simp add: released_empty)
next
  case (no_records m item queue)
  then show ?case by (auto simp: released_no_records)
next
  case (return m item queue remaining m1)
  from return(3) obtain fired where f: "callbacks item = fired @ remaining"
    by (rule scan_callbacks_full)
  with return show ?case
    by (auto simp: released_return [OF return(1,2,3) f(1)])
next
  case (pop m item queue remaining m1)
  then show ?case by (auto simp: released_pop [OF pop(1,2,3)])
qed

lemma released_Drain_applied:
  "\<forall>b \<in> set (txn_callbacks m). has_records b \<Longrightarrow> e \<in> set (released m) \<Longrightarrow> fst e = Drain_applied"
proof (induction m rule: PTC_induct)
  case (empty m)
  then show ?case by (simp add: released_empty)
next
  case (no_records m item queue)
  then show ?case by auto
next
  case (return m item queue remaining m1)
  from return(3) obtain fired where f: "callbacks item = fired @ remaining"
    by (rule scan_callbacks_full)
  with return show ?case
    by (auto simp: released_return [OF return(1,2,3) f(1)])
next
  case (pop m item queue remaining m1)
  then show ?case by (auto simp: released_pop [OF pop(1,2,3)])
qed

lemma released_all_replicas_applied:
  "(Drain_applied, cb) \<in> set (released m) \<Longrightarrow> all_replicas_applied m cb"
proof (induction m rule: PTC_induct)
  case (empty m)
  then show ?case by (simp add: released_empty)
next
  case (no_records m item queue)
  let ?m' = "(fold (invoke Drain_no_records) (callbacks item) m)\<lparr>txn_callbacks := queue\<rparr>"
  from no_records have "(Drain_applied, cb) \<in> set (released ?m')"
    by (auto simp: released_no_records)
  with no_records(3) have "all_replicas_applied ?m' cb" by simp
  then show ?case by (simp add: fold_invoke all_replicas_applied_def split: option.splits)
next
  case (return m item queue remaining m1)
  from return(3) obtain fired where f: "callbacks item = fired @ remaining"
    "\<forall>cb \<in> set fired. all_replicas_applied m cb"
    by (rule scan_callbacks_full)
  with return show ?case
    by (auto simp: released_return [OF return(1,2,3) f(1)])
next
  case (pop m item queue remaining m1)
  from pop(3) obtain fired where f: "callbacks item = fired @ remaining" "False = (remaining \<noteq> [])"
    "m1 = m\<lparr>invoked := invoked m @ map (Pair Drain_applied) fired,
            txns_applied_on_replicas := erased (txns_applied_on_replicas m) fired\<rparr>"
    "\<forall>cb \<in> set fired. all_replicas_applied m cb"
    by (rule scan_callbacks_full)
  let ?m' = "m1\<lparr>txn_callbacks := queue\<rparr>"
  have older: "all_replicas_applied ?m' cb \<Longrightarrow> all_replicas_applied m cb"
    unfolding f(3) by (auto simp: all_replicas_applied_def erased_def split: option.splits if_splits)
  from pop(5) have "cb \<in> set (callbacks item) \<or> (Drain_applied, cb) \<in> set (released ?m')"
    by (auto simp: released_pop [OF pop(1,2,3)])
  then show ?case
  proof
    assume "cb \<in> set (callbacks item)"
    with f(1,2,4) show ?thesis by simp
  next
    assume "(Drain_applied, cb) \<in> set (released ?m')"
    with pop(4) older show ?thesis by blast
  qed
qed

lemma PTC_table:
  "txns_applied_on_replicas (ProcessTxnCallbacks m) =
     erased (txns_applied_on_replicas m) (map snd (filter (\<lambda>e. fst e = Drain_applied) (released m)))"
proof (induction m rule: PTC_induct)
  case (empty m)
  then show ?case by (simp add: PTC_empty released_empty)
next
  case (no_records m item queue)
  then show ?case
    by (simp add: PTC_no_records released_no_records fold_invoke)
next
  case (return m item queue remaining m1)
  from return(3) obtain fired where f: "callbacks item = fired @ remaining"
    "m1 = m\<lparr>invoked := invoked m @ map (Pair Drain_applied) fired,
            txns_applied_on_replicas := erased (txns_applied_on_replicas m) fired\<rparr>"
    by (rule scan_callbacks_full)
  with return show ?case
    by (simp add: PTC_return released_return [OF return(1,2,3) f(1)] comp_def)
next
  case (pop m item queue remaining m1)
  from pop(3) obtain fired where f: "callbacks item = fired @ remaining" "False = (remaining \<noteq> [])"
    "m1 = m\<lparr>invoked := invoked m @ map (Pair Drain_applied) fired,
            txns_applied_on_replicas := erased (txns_applied_on_replicas m) fired\<rparr>"
    by (rule scan_callbacks_full)
  with pop show ?case
    by (simp add: PTC_pop released_pop [OF pop(1,2,3)] comp_def erased_append)
qed

lemma PTC_has_records:
  "\<forall>b \<in> set (txn_callbacks m). has_records b \<Longrightarrow>
   \<forall>b \<in> set (txn_callbacks (ProcessTxnCallbacks m)). has_records b"
proof (induction m rule: PTC_induct)
  case (empty m)
  then show ?case by (simp add: PTC_empty)
next
  case (no_records m item queue)
  then show ?case by simp
next
  case (return m item queue remaining m1)
  then show ?case by (simp add: PTC_return)
next
  case (pop m item queue remaining m1)
  then show ?case by (simp add: PTC_pop)
qed

lemma run_append:
  "run invalid_id m (cs @ ds) = (case run invalid_id m cs of Inl e \<Rightarrow> Inl e | Inr m1 \<Rightarrow> run invalid_id m1 ds)"
  by (induction cs arbitrary: m) (auto split: sum.splits)

lemma run_snoc:
  "run invalid_id m (cs @ [c]) = (case run invalid_id m cs of Inl e \<Rightarrow> Inl e | Inr m1 \<Rightarrow> step invalid_id m1 c)"
  by (simp add: run_append split: sum.splits)

lemma run_induct [consumes 1, case_names init step]:
  assumes "run invalid_id m0 cs = Inr m"
    and "P [] m0"
    and "\<And>cs m1 c m2. run invalid_id m0 cs = Inr m1 \<Longrightarrow> P cs m1 \<Longrightarrow> step invalid_id m1 c = Inr m2 \<Longrightarrow> P (cs @ [c]) m2"
  shows "P cs m"
  using assms(1)
proof (induction cs arbitrary: m rule: rev_induct)
  case Nil
  with assms(2) show ?case by simp
next
  case (snoc c cs)
  from snoc.prems obtain m1 where m1: "run invalid_id m0 cs = Inr m1" "step invalid_id m1 c = Inr m"
    by (auto simp: run_snoc split: sum.splits)
  from snoc.IH [OF m1(1)] have "P cs m1" .
  with m1 show ?case using assms(3) by blast
qed

text \<open>What one call does to the ledger.\<close>

lemma GetNextMessageId_frame:
  "GetNextMessageId m = (i, m1) \<Longrightarrow>
     m1 = m\<lparr>next_msg_id := next_msg_id m + 1\<rparr>"
  by (auto simp: GetNextMessageId_def)

lemma GetNextBatchId_eq:
  "GetNextBatchId invalid_id m =
     (next_batch_id m,
      m\<lparr>next_batch_id := (if next_batch_id m + 1 = invalid_id then next_batch_id m + 2 else next_batch_id m + 1)\<rparr>)"
  by (auto simp: GetNextBatchId_def Let_def)

lemma transmitted_fields [simp]:
  "replicas (transmitted invalid_id rb m) = replicas m"
  "txn_callbacks (transmitted invalid_id rb m) = txn_callbacks m"
  "invoked (transmitted invalid_id rb m) = invoked m"
  "txns_applied_on_replicas (transmitted invalid_id rb m) = txns_applied_on_replicas m"
  by (simp_all add: transmitted_def split: option.splits)

lemma ReplicateBatchOfRecords_eq:
  "ReplicateBatchOfRecords invalid_id records_batch cbs policy m =
     (if policy = DISABLE then Inl (AssertionFailure ''Replication is disabled, so why are we here?'')
      else Inr (transmitted invalid_id records_batch
        (m\<lparr>txn_callbacks := txn_callbacks m @ queued_by (Replicate records_batch cbs policy),
           invoked := invoked m @ map (Pair Immediate) (released_by (Replicate records_batch cbs policy))\<rparr>)))"
proof (cases records_batch)
  case None
  then show ?thesis
    by (cases policy)
       (simp_all add: ReplicateBatchOfRecords_def NOISEPAGE_ASSERT_def fold_invoke transmitted_def)
next
  case (Some buffer)
  then show ?thesis
    by (cases policy; cases "MarkSerialized buffer")
       (simp_all add: ReplicateBatchOfRecords_def NOISEPAGE_ASSERT_def fold_invoke transmitted_def
          GetNextMessageId_def GetNextBatchId_eq del: One_nat_def cong: if_cong)
qed

lemma ReplicateBatchOfRecords_ledger:
  assumes "ReplicateBatchOfRecords invalid_id records_batch cbs policy m = Inr m1"
  shows "policy \<noteq> DISABLE"
    and "replicas m1 = replicas m"
    and "txns_applied_on_replicas m1 = txns_applied_on_replicas m"
    and "txn_callbacks m1 = txn_callbacks m @ queued_by (Replicate records_batch cbs policy)"
    and "invoked m1 = invoked m @ map (Pair Immediate) (released_by (Replicate records_batch cbs policy))"
  using assms by (auto simp: ReplicateBatchOfRecords_eq split: if_splits)

lemma SendAckForMessage_eq:
  "SendAckForMessage zmq_msg msg m =
     m\<lparr>next_msg_id := next_msg_id m + 1,
       sent := sent m @ [({|GetRoutingId zmq_msg|}, AckMsg (next_msg_id m) (GetMessageId msg))]\<rparr>"
  by (simp add: SendAckForMessage_def GetNextMessageId_def)

lemma marked_fields [simp]:
  "replicas (marked z msg m) = replicas m"
  "txn_callbacks (marked z msg m) = txn_callbacks m"
  "invoked (marked z msg m) = invoked m"
  "txns_applied_on_replicas (marked z msg m) =
     (txns_applied_on_replicas m)(GetAppliedTxnId msg \<mapsto>
           finsert (GetRoutingId z)
             (case txns_applied_on_replicas m (GetAppliedTxnId msg) of None \<Rightarrow> {||} | Some applied \<Rightarrow> applied))"
  by (simp_all add: marked_def SendAckForMessage_eq)

lemma Handle_eq:
  "Handle zmq_msg msg m =
     (if fcard (finsert (GetRoutingId zmq_msg)
             (case txns_applied_on_replicas m (GetAppliedTxnId msg) of None \<Rightarrow> {||} | Some applied \<Rightarrow> applied))
         = fcard (replicas m)
      then ProcessTxnCallbacks (marked zmq_msg msg m) else marked zmq_msg msg m)"
  by (cases "txns_applied_on_replicas m (GetAppliedTxnId msg)")
     (simp_all add: Handle_def marked_def SendAckForMessage_eq Let_def)

lemma unat_plus_one: "unat (x :: 64 word) + 1 < 2 ^ 64 \<Longrightarrow> unat (x + 1) = unat x + 1"
  by (simp add: unat_word_ariths)

lemma unat_plus_two: "unat (x :: 64 word) + 2 < 2 ^ 64 \<Longrightarrow> unat (x + 2) = unat x + 2"
  by (simp add: unat_word_ariths)

lemma GetNextBatchId_never_invalid:
  assumes "next_batch_id m \<noteq> invalid_id" "GetNextBatchId invalid_id m = (i, m1)"
  shows "i \<noteq> invalid_id \<and> next_batch_id m1 \<noteq> invalid_id \<and> i = next_batch_id m"
  using assms by (auto simp: GetNextBatchId_eq split: if_splits)

lemma GetNextBatchId_times_never_invalid:
  "next_batch_id m \<noteq> invalid_id \<Longrightarrow> GetNextBatchId_times invalid_id k m = (ids, m1) \<Longrightarrow>
     invalid_id \<notin> set ids \<and> next_batch_id m1 \<noteq> invalid_id"
proof (induction k arbitrary: m ids)
  case 0
  then show ?case by simp
next
  case (Suc k)
  obtain i ma where g: "GetNextBatchId invalid_id m = (i, ma)" by (cases "GetNextBatchId invalid_id m") auto
  obtain js mb where t: "GetNextBatchId_times invalid_id k ma = (js, mb)"
    by (cases "GetNextBatchId_times invalid_id k ma") auto
  from Suc.prems(2) g t have e: "ids = i # js" "m1 = mb" by simp_all
  from GetNextBatchId_never_invalid [OF Suc.prems(1) g] have n: "i \<noteq> invalid_id" "next_batch_id ma \<noteq> invalid_id"
    by auto
  from Suc.IH [OF n(2)] t e(2) have "invalid_id \<notin> set js \<and> next_batch_id m1 \<noteq> invalid_id" by simp
  with n(1) e(1) show ?case by auto
qed

lemma GetNextBatchId_times_increasing_aux:
  fixes N :: nat
  assumes N: "N = 2 ^ 64"
  shows "next_batch_id m \<noteq> invalid_id \<Longrightarrow> GetNextBatchId_times invalid_id k m = (ids, m1) \<Longrightarrow>
   unat (next_batch_id m) + k + (if next_batch_id m \<le> invalid_id then 1 else 0) \<le> N \<Longrightarrow>
     sorted_wrt (<) ids \<and> (\<forall>i \<in> set ids. next_batch_id m \<le> i)"
proof (induction k arbitrary: m ids m1)
  case 0
  then show ?case by simp
next
  case (Suc k)
  let ?x = "next_batch_id m"
  obtain i ma where g: "GetNextBatchId invalid_id m = (i, ma)" by (cases "GetNextBatchId invalid_id m") auto
  obtain js mb where t: "GetNextBatchId_times invalid_id k ma = (js, mb)"
    by (cases "GetNextBatchId_times invalid_id k ma") auto
  from Suc.prems(2) g t have e: "ids = i # js" "m1 = mb" by simp_all
  from GetNextBatchId_never_invalid [OF Suc.prems(1) g] have n: "i = ?x" "next_batch_id ma \<noteq> invalid_id"
    by auto
  show ?case
  proof (cases k)
    case 0
    with t e n show ?thesis by simp
  next
    case (Suc k')
    let ?y = "next_batch_id ma"
    define c :: nat where "c = (if ?x \<le> invalid_id then 1 else 0)"
    define d :: nat where "d = (if ?y \<le> invalid_id then 1 else 0)"
    have y: "?y = (if ?x + 1 = invalid_id then ?x + 2 else ?x + 1)"
      using g by (auto simp: GetNextBatchId_eq)
    have b: "unat ?x + k + 1 + c \<le> N"
      using Suc.prems(3) by (simp add: c_def)
    have k1: "1 \<le> k" using Suc by simp
    have lt: "?x < ?y \<and> unat ?y + k + d \<le> N"
    proof (cases "?x + 1 = invalid_id")
      case True
      from b k1 have "unat ?x + 1 < N" by linarith
      then have "unat (?x + 1) = unat ?x + 1" unfolding N by (rule unat_plus_one)
      with True have i: "unat invalid_id = unat ?x + 1" by simp
      then have "?x \<le> invalid_id" by (simp add: word_le_nat_alt)
      then have c1: "c = 1" by (simp add: c_def)
      with b k1 have "unat ?x + 2 < N" by linarith
      then have "unat (?x + 2) = unat ?x + 2" unfolding N by (rule unat_plus_two)
      with True y have u: "unat ?y = unat ?x + 2" by simp
      with i have "\<not> ?y \<le> invalid_id" by (simp add: word_le_nat_alt)
      then have d0: "d = 0" by (simp add: d_def)
      from u have "?x < ?y" by (simp add: word_less_nat_alt)
      moreover from u b c1 d0 have "unat ?y + k + d \<le> N" by linarith
      ultimately show ?thesis by simp
    next
      case False
      from b k1 have "unat ?x + 1 < N" by linarith
      then have "unat (?x + 1) = unat ?x + 1" unfolding N by (rule unat_plus_one)
      with False y have u: "unat ?y = unat ?x + 1" by simp
      then have "?x < ?y" by (simp add: word_less_nat_alt)
      moreover have "?y \<le> invalid_id \<Longrightarrow> ?x \<le> invalid_id" using u by (simp add: word_le_nat_alt)
      then have "d \<le> c" by (auto simp: c_def d_def)
      with u b have "unat ?y + k + d \<le> N" by linarith
      ultimately show ?thesis by simp
    qed
    then have "unat ?y + k + (if ?y \<le> invalid_id then 1 else 0) \<le> N" by (simp add: d_def)
    from Suc.IH [OF n(2) t this] have "sorted_wrt (<) js \<and> (\<forall>i \<in> set js. ?y \<le> i)" .
    with lt e n show ?thesis by auto
  qed
qed

lemma GetNextBatchId_times_increasing:
  "next_batch_id m \<noteq> invalid_id \<Longrightarrow> GetNextBatchId_times invalid_id k m = (ids, m1) \<Longrightarrow>
   unat (next_batch_id m) + k + (if next_batch_id m \<le> invalid_id then 1 else 0) \<le> 2 ^ 64 \<Longrightarrow>
     sorted_wrt (<) ids \<and> (\<forall>i \<in> set ids. next_batch_id m \<le> i)"
  by (rule GetNextBatchId_times_increasing_aux [OF refl])

lemma GetNextBatchId_times_add:
  "GetNextBatchId_times invalid_id (a + b) m =
     (fst (GetNextBatchId_times invalid_id a m) @ fst (GetNextBatchId_times invalid_id b (snd (GetNextBatchId_times invalid_id a m))),
      snd (GetNextBatchId_times invalid_id b (snd (GetNextBatchId_times invalid_id a m))))"
  by (induction a arbitrary: m) (simp_all add: split_def Let_def)

lemma GetNextBatchId_times_no_skip_aux:
  fixes N :: nat
  assumes N: "N = 2 ^ 64"
  shows "invalid_id < next_batch_id m \<Longrightarrow> unat (next_batch_id m) + k < N \<Longrightarrow>
     snd (GetNextBatchId_times invalid_id k m) = m\<lparr>next_batch_id := next_batch_id m + of_nat k\<rparr> \<and>
     (0 < k \<longrightarrow> hd (fst (GetNextBatchId_times invalid_id k m)) = next_batch_id m)"
proof (induction k arbitrary: m)
  case 0
  then show ?case by simp
next
  case (Suc k)
  let ?x = "next_batch_id m"
  let ?ma = "m\<lparr>next_batch_id := ?x + 1\<rparr>"
  from Suc.prems(2) have "unat ?x + 1 < N" by linarith
  then have u: "unat (?x + 1) = unat ?x + 1" unfolding N by (rule unat_plus_one)
  with Suc.prems(1) have "invalid_id < ?x + 1" by (simp add: word_less_nat_alt)
  then have ne: "?x + 1 \<noteq> invalid_id" by auto
  then have g: "GetNextBatchId invalid_id m = (?x, ?ma)" by (simp add: GetNextBatchId_eq)
  have "invalid_id < next_batch_id ?ma" using \<open>invalid_id < ?x + 1\<close> by simp
  moreover have "unat (next_batch_id ?ma) + k < N" using u Suc.prems(2) by simp
  ultimately have "snd (GetNextBatchId_times invalid_id k ?ma) = ?ma\<lparr>next_batch_id := next_batch_id ?ma + of_nat k\<rparr>"
    using Suc.IH by blast
  with g show ?case by (simp add: split_def add.assoc add.commute)
qed

lemma Handle_cases:
  "Handle zmq_msg msg m =
     (if complete zmq_msg msg m then ProcessTxnCallbacks (marked zmq_msg msg m) else marked zmq_msg msg m)"
  by (simp add: Handle_eq complete_def)

lemma Handle_invoked: "invoked (Handle z msg m) = invoked m @ freed z msg m"
  by (simp add: Handle_cases freed_def PTC_invoked)

lemma Handle_replicas: "replicas (Handle z msg m) = replicas m"
  by (simp add: Handle_cases PTC_frame)

lemma pending_marked: "pending (marked z msg m) = pending m"
  by (simp add: pending_def)

lemma Handle_pending: "map snd (freed z msg m) @ pending (Handle z msg m) = pending m"
  using PTC_pending [of "marked z msg m"]
  by (simp add: Handle_cases freed_def pending_marked)

lemma freed_not_Immediate: "e \<in> set (freed z msg m) \<Longrightarrow> fst e \<noteq> Immediate"
  by (cases "complete z msg m") (simp_all add: freed_def released_not_Immediate)

lemma freed_Drain_applied:
  "\<forall>b \<in> set (txn_callbacks m). has_records b \<Longrightarrow> e \<in> set (freed z msg m) \<Longrightarrow> fst e = Drain_applied"
  using released_Drain_applied [of "marked z msg m" e]
  by (cases "complete z msg m") (simp_all add: freed_def)

lemma freed_all_replicas_applied:
  "(Drain_applied, cb) \<in> set (freed z msg m) \<Longrightarrow> all_replicas_applied (marked z msg m) cb"
  by (cases "complete z msg m") (simp_all add: freed_def released_all_replicas_applied)

lemma Handle_has_records:
  "\<forall>b \<in> set (txn_callbacks m). has_records b \<Longrightarrow>
   \<forall>b \<in> set (txn_callbacks (Handle z msg m)). has_records b"
  using PTC_has_records [of "marked z msg m"] by (simp add: Handle_cases)

lemma Handle_table:
  "txns_applied_on_replicas (Handle z msg m) t = Some S \<Longrightarrow>
   txns_applied_on_replicas (marked z msg m) t = Some S"
  by (auto simp: Handle_cases PTC_table erased_def split: if_splits)

lemma filter_same: "\<forall>e \<in> set xs. P e \<Longrightarrow> filter P xs = xs"
  by (induction xs) auto

lemma filter_none: "\<forall>e \<in> set xs. \<not> P e \<Longrightarrow> filter P xs = []"
  by (induction xs) auto

lemma drained_Handle: "drained (Handle z msg m) = drained m @ map snd (freed z msg m)"
  using freed_not_Immediate [of _ z msg m]
  by (simp add: drained_def Handle_invoked filter_same)

lemma called_at_once_Handle: "called_at_once (Handle z msg m) = called_at_once m"
  using freed_not_Immediate [of _ z msg m]
  by (simp add: called_at_once_def Handle_invoked filter_none)

lemma drained_Replicate:
  "ReplicateBatchOfRecords invalid_id rb cbs policy m = Inr m1 \<Longrightarrow> drained m1 = drained m"
  using ReplicateBatchOfRecords_ledger(5) [of invalid_id rb cbs policy m m1]
  by (simp add: drained_def filter_none)

lemma called_at_once_Replicate:
  "ReplicateBatchOfRecords invalid_id rb cbs policy m = Inr m1 \<Longrightarrow>
   called_at_once m1 = called_at_once m @ released_by (Replicate rb cbs policy)"
  using ReplicateBatchOfRecords_ledger(5) [of invalid_id rb cbs policy m m1]
  by (simp add: called_at_once_def filter_same comp_def)

lemma pending_Replicate:
  "ReplicateBatchOfRecords invalid_id rb cbs policy m = Inr m1 \<Longrightarrow>
   pending m1 = pending m @ concat (map callbacks (queued_by (Replicate rb cbs policy)))"
  using ReplicateBatchOfRecords_ledger(4) [of invalid_id rb cbs policy m m1]
  by (simp add: pending_def)

text \<open>Invariants of every run.\<close>

lemma run_replicas: "run invalid_id m0 cs = Inr m \<Longrightarrow> replicas m = replicas m0"
proof (induction rule: run_induct)
  case init
  show ?case by simp
next
  case (step cs m1 c m2)
  show ?case
  proof (cases c)
    case (Replicate rb cbs policy)
    with step.hyps(2) have r: "ReplicateBatchOfRecords invalid_id rb cbs policy m1 = Inr m2" by simp
    show ?thesis by (simp add: ReplicateBatchOfRecords_ledger(2) [OF r] step.IH)
  next
    case (TxnApplied z msg)
    with step.hyps(2) have h: "m2 = Handle z msg m1" by simp
    show ?thesis by (simp add: h Handle_replicas step.IH)
  qed
qed

lemma run_has_records:
  "run invalid_id m0 cs = Inr m \<Longrightarrow> txn_callbacks m0 = [] \<Longrightarrow> \<forall>b \<in> set (txn_callbacks m). has_records b"
proof (induction rule: run_induct)
  case init
  then show ?case by simp
next
  case (step cs m1 c m2)
  from step.IH step.prems have ih: "\<forall>b \<in> set (txn_callbacks m1). has_records b" by simp
  show ?case
  proof (cases c)
    case (Replicate rb cbs policy)
    with step.hyps(2) have r: "ReplicateBatchOfRecords invalid_id rb cbs policy m1 = Inr m2" by simp
    show ?thesis using ih
      by (auto simp: ReplicateBatchOfRecords_ledger(4) [OF r] split: if_splits)
  next
    case (TxnApplied z msg)
    with step.hyps(2) have h: "m2 = Handle z msg m1" by simp
    show ?thesis unfolding h using ih by (rule Handle_has_records)
  qed
qed

lemma run_fifo:
  "run invalid_id m0 cs = Inr m \<Longrightarrow> txn_callbacks m0 = [] \<Longrightarrow> invoked m0 = [] \<Longrightarrow>
     drained m @ pending m = concat (map callbacks (enqueued cs))"
proof (induction rule: run_induct)
  case init
  then show ?case by (simp add: drained_def pending_def enqueued_def)
next
  case (step cs m1 c m2)
  from step.IH step.prems have ih: "drained m1 @ pending m1 = concat (map callbacks (enqueued cs))" by simp
  show ?case
  proof (cases c)
    case (Replicate rb cbs policy)
    with step.hyps(2) have r: "ReplicateBatchOfRecords invalid_id rb cbs policy m1 = Inr m2" by simp
    have "drained m2 @ pending m2 = (drained m1 @ pending m1) @ concat (map callbacks (queued_by c))"
      by (simp add: drained_Replicate [OF r] pending_Replicate [OF r] Replicate)
    then show ?thesis by (simp add: ih enqueued_def)
  next
    case (TxnApplied z msg)
    with step.hyps(2) have h: "m2 = Handle z msg m1" by simp
    have "drained m2 @ pending m2 = drained m1 @ (map snd (freed z msg m1) @ pending (Handle z msg m1))"
      by (simp add: h drained_Handle)
    also have "\<dots> = drained m1 @ pending m1" by (simp only: Handle_pending)
    finally show ?thesis by (simp add: ih enqueued_def TxnApplied)
  qed
qed

lemma run_called_at_once:
  "run invalid_id m0 cs = Inr m \<Longrightarrow> invoked m0 = [] \<Longrightarrow> called_at_once m = concat (map released_by cs)"
proof (induction rule: run_induct)
  case init
  then show ?case by (simp add: called_at_once_def)
next
  case (step cs m1 c m2)
  from step.IH step.prems have ih: "called_at_once m1 = concat (map released_by cs)" by simp
  show ?case
  proof (cases c)
    case (Replicate rb cbs policy)
    with step.hyps(2) have r: "ReplicateBatchOfRecords invalid_id rb cbs policy m1 = Inr m2" by simp
    show ?thesis by (simp add: called_at_once_Replicate [OF r] Replicate ih)
  next
    case (TxnApplied z msg)
    with step.hyps(2) have h: "m2 = Handle z msg m1" by simp
    show ?thesis by (simp add: h called_at_once_Handle ih TxnApplied)
  qed
qed

lemma run_no_Drain_no_records:
  "run invalid_id m0 cs = Inr m \<Longrightarrow> txn_callbacks m0 = [] \<Longrightarrow> invoked m0 = [] \<Longrightarrow>
     \<forall>e \<in> set (invoked m). fst e \<noteq> Drain_no_records"
proof (induction rule: run_induct)
  case init
  then show ?case by simp
next
  case (step cs m1 c m2)
  from step.IH step.prems have ih: "\<forall>e \<in> set (invoked m1). fst e \<noteq> Drain_no_records" by simp
  show ?case
  proof (cases c)
    case (Replicate rb cbs policy)
    with step.hyps(2) have r: "ReplicateBatchOfRecords invalid_id rb cbs policy m1 = Inr m2" by simp
    from ih show ?thesis
      by (auto simp: ReplicateBatchOfRecords_ledger(5) [OF r])
  next
    case (TxnApplied z msg)
    with step.hyps(2) have h: "m2 = Handle z msg m1" by simp
    from run_has_records [OF step.hyps(1) step.prems(1)]
    have "\<forall>b \<in> set (txn_callbacks m1). has_records b" .
    then have "\<forall>e \<in> set (freed z msg m1). fst e = Drain_applied"
      using freed_Drain_applied by blast
    with ih show ?thesis by (auto simp: h Handle_invoked)
  qed
qed

lemma run_table:
  "run invalid_id m0 cs = Inr m \<Longrightarrow> txns_applied_on_replicas m0 = Map.empty \<Longrightarrow>
     \<forall>t S r. txns_applied_on_replicas m t = Some S \<longrightarrow> r |\<in>| S \<longrightarrow> (r, t) \<in> notifications cs"
proof (induction rule: run_induct)
  case init
  then show ?case by simp
next
  case (step cs m1 c m2)
  from step.IH step.prems have
    ih: "\<And>t S r. txns_applied_on_replicas m1 t = Some S \<Longrightarrow> r |\<in>| S \<Longrightarrow> (r, t) \<in> notifications cs"
    by blast
  show ?case
  proof (cases c)
    case (Replicate rb cbs policy)
    with step.hyps(2) have r: "ReplicateBatchOfRecords invalid_id rb cbs policy m1 = Inr m2" by simp
    from ih show ?thesis
      by (auto simp: ReplicateBatchOfRecords_ledger(3) [OF r] notifications_def)
  next
    case (TxnApplied z msg)
    with step.hyps(2) have h: "m2 = Handle z msg m1" by simp
    show ?thesis
    proof (intro allI impI)
      fix t S r
      assume a: "txns_applied_on_replicas m2 t = Some S" "r |\<in>| S"
      from a(1) have mk: "txns_applied_on_replicas (marked z msg m1) t = Some S"
        unfolding h by (rule Handle_table)
      have n: "notifications (cs @ [c]) = insert (GetRoutingId z, GetAppliedTxnId msg) (notifications cs)"
        by (simp add: notifications_def TxnApplied)
      show "(r, t) \<in> notifications (cs @ [c])"
      proof (cases "t = GetAppliedTxnId msg")
        case False
        with mk have "txns_applied_on_replicas m1 t = Some S" by simp
        from ih [OF this a(2)] show ?thesis by (simp add: n)
      next
        case True
        show ?thesis
        proof (cases "txns_applied_on_replicas m1 t")
          case None
          with mk True a(2) show ?thesis by (auto simp: n)
        next
          case (Some S1)
          with mk True have "S = finsert (GetRoutingId z) S1" by auto
          with a(2) have "r = GetRoutingId z \<or> r |\<in>| S1" by auto
          with ih [OF Some] True show ?thesis by (auto simp: n)
        qed
      qed
    qed
  qed
qed

lemma notifications_snoc:
  "notifications (cs @ [c]) = notifications cs \<union> set (notification c)"
  by (simp add: notifications_def)

lemma notifications_senders:
  "(r, t) \<in> notifications cs \<Longrightarrow>
     \<exists>z msg. TxnApplied z msg \<in> set cs \<and> GetRoutingId z = r \<and> GetAppliedTxnId msg = t"
proof (induction cs)
  case Nil
  then show ?case by (simp add: notifications_def)
next
  case (Cons c cs)
  then show ?case by (cases c) (auto simp: notifications_def)
qed

lemma marked_table_notified:
  assumes "\<forall>t S r. txns_applied_on_replicas m t = Some S \<longrightarrow> r |\<in>| S \<longrightarrow> (r, t) \<in> N"
    and "txns_applied_on_replicas (marked z msg m) t = Some S" and "r |\<in>| S"
  shows "(r, t) \<in> insert (GetRoutingId z, GetAppliedTxnId msg) N"
proof (cases "t = GetAppliedTxnId msg")
  case False
  with assms(2) have "txns_applied_on_replicas m t = Some S" by simp
  with assms(1,3) show ?thesis by blast
next
  case True
  show ?thesis
  proof (cases "txns_applied_on_replicas m t")
    case None
    with assms(2,3) True show ?thesis by auto
  next
    case (Some S1)
    with assms(2) True have "S = finsert (GetRoutingId z) S1" by auto
    with assms(3) have "r = GetRoutingId z \<or> r |\<in>| S1" by auto
    with assms(1) Some True show ?thesis by auto
  qed
qed

lemma run_applied:
  "run invalid_id m0 cs = Inr m \<Longrightarrow> txns_applied_on_replicas m0 = Map.empty \<Longrightarrow> invoked m0 = [] \<Longrightarrow>
     \<forall>cb. (Drain_applied, cb) \<in> set (invoked m) \<longrightarrow>
       (\<exists>S. fcard S = fcard (replicas m0) \<and> (\<forall>r. r |\<in>| S \<longrightarrow> (r, txn_start_time cb) \<in> notifications cs))"
proof (induction rule: run_induct)
  case init
  then show ?case by simp
next
  case (step cs m1 c m2)
  from step.IH step.prems have
    ih: "\<And>cb. (Drain_applied, cb) \<in> set (invoked m1) \<Longrightarrow>
       \<exists>S. fcard S = fcard (replicas m0) \<and> (\<forall>r. r |\<in>| S \<longrightarrow> (r, txn_start_time cb) \<in> notifications cs)"
    by blast
  have mono: "notifications cs \<subseteq> notifications (cs @ [c])" by (auto simp: notifications_snoc)
  show ?case
  proof (cases c)
    case (Replicate rb cbs policy)
    with step.hyps(2) have r: "ReplicateBatchOfRecords invalid_id rb cbs policy m1 = Inr m2" by simp
    show ?thesis
    proof (intro allI impI)
      fix cb assume "(Drain_applied, cb) \<in> set (invoked m2)"
      then have "(Drain_applied, cb) \<in> set (invoked m1)"
        by (auto simp: ReplicateBatchOfRecords_ledger(5) [OF r])
      from ih [OF this] mono show "\<exists>S. fcard S = fcard (replicas m0) \<and>
          (\<forall>r. r |\<in>| S \<longrightarrow> (r, txn_start_time cb) \<in> notifications (cs @ [c]))"
        by blast
    qed
  next
    case (TxnApplied z msg)
    with step.hyps(2) have h: "m2 = Handle z msg m1" by simp
    have n: "notifications (cs @ [c]) = insert (GetRoutingId z, GetAppliedTxnId msg) (notifications cs)"
      by (simp add: notifications_snoc TxnApplied)
    note tb = run_table [OF step.hyps(1) step.prems(1)]
    show ?thesis
    proof (intro allI impI)
      fix cb assume "(Drain_applied, cb) \<in> set (invoked m2)"
      then have "(Drain_applied, cb) \<in> set (invoked m1) \<or> (Drain_applied, cb) \<in> set (freed z msg m1)"
        by (auto simp: h Handle_invoked)
      then show "\<exists>S. fcard S = fcard (replicas m0) \<and>
          (\<forall>r. r |\<in>| S \<longrightarrow> (r, txn_start_time cb) \<in> notifications (cs @ [c]))"
      proof
        assume "(Drain_applied, cb) \<in> set (invoked m1)"
        from ih [OF this] mono show ?thesis by blast
      next
        assume "(Drain_applied, cb) \<in> set (freed z msg m1)"
        then have "all_replicas_applied (marked z msg m1) cb" by (rule freed_all_replicas_applied)
        then obtain S where S: "txns_applied_on_replicas (marked z msg m1) (txn_start_time cb) = Some S"
          "fcard S = fcard (replicas m1)"
          by (auto simp: all_replicas_applied_def split: option.splits)
        have "\<forall>r. r |\<in>| S \<longrightarrow> (r, txn_start_time cb) \<in> notifications (cs @ [c])"
          unfolding n using marked_table_notified [OF tb S(1)] by blast
        moreover have "fcard S = fcard (replicas m0)"
          using S(2) run_replicas [OF step.hyps(1)] by simp
        ultimately show ?thesis by blast
      qed
    qed
  qed
qed

lemma run_supplied:
  "run invalid_id m0 cs = Inr m \<Longrightarrow>
     mset (concat (map supplied_by cs)) =
       mset (concat (map released_by cs)) + mset (concat (map callbacks (enqueued cs)))"
proof (induction rule: run_induct)
  case init
  show ?case by (simp add: enqueued_def)
next
  case (step cs m1 c m2)
  have "mset (supplied_by c) = mset (released_by c) + mset (concat (map callbacks (queued_by c)))"
  proof (cases c)
    case (Replicate rb cbs policy)
    with step.hyps(2) have r: "ReplicateBatchOfRecords invalid_id rb cbs policy m1 = Inr m2" by simp
    from ReplicateBatchOfRecords_ledger(1) [OF r] show ?thesis
      by (cases policy) (auto simp: Replicate)
  next
    case (TxnApplied z msg)
    then show ?thesis by simp
  qed
  with step.IH show ?case by (simp add: enqueued_def)
qed

lemma mset_map_partition:
  "mset (map f xs) = mset (map f (filter P xs)) + mset (map f (filter (\<lambda>x. \<not> P x) xs))"
  by (induction xs) simp_all

lemma mset_invoked: "mset (map snd (invoked m)) = mset (called_at_once m) + mset (drained m)"
  unfolding called_at_once_def drained_def
  by (rule mset_map_partition)

text \<open>The definitions that the evaluation of a run on given calls unfolds.\<close>

lemmas eval_manager =
  new_manager_def Handle_def SendAckForMessage_def GetNextMessageId_def GetNextBatchId_def
  ReplicateBatchOfRecords_def NOISEPAGE_ASSERT_def ProcessTxnCallbacks.simps all_replicas_applied_def
  invoke_def fcard_finsert_if Let_def

lemma PTC_blocked:
  assumes "txn_callbacks m = item # queue" "has_records item" "callbacks item = cb # rest"
    "\<not> all_replicas_applied m cb"
  shows "ProcessTxnCallbacks m = m"
proof -
  from assms(3,4) have "scan_callbacks (callbacks item) m = (True, callbacks item, m)" by simp
  from PTC_return [OF assms(1,2) this] assms(1) show ?thesis by simp
qed

lemma head_released_0 [simp]: "head_released 0 queue = queue"
  by (cases queue) simp_all

lemma PTC_queue:
  "\<exists>popped rest k. txn_callbacks m = popped @ rest \<and>
      txn_callbacks (ProcessTxnCallbacks m) = head_released k rest \<and>
      map snd (released m) = concat (map callbacks popped) @ take k (concat (map callbacks rest)) \<and>
      (k = 0 \<or> rest \<noteq> [] \<and> k < length (callbacks (hd rest)))"
proof (induction m rule: PTC_induct)
  case (empty m)
  then have "txn_callbacks m = [] @ [] \<and>
      txn_callbacks (ProcessTxnCallbacks m) = head_released 0 [] \<and>
      map snd (released m) = concat (map callbacks []) @ take 0 (concat (map callbacks [])) \<and>
      ((0::nat) = 0 \<or> [] \<noteq> [] \<and> 0 < length (callbacks (hd [])))"
    by (simp add: PTC_empty released_empty)
  then show ?case by blast
next
  case (no_records m item queue)
  let ?m' = "(fold (invoke Drain_no_records) (callbacks item) m)\<lparr>txn_callbacks := queue\<rparr>"
  from no_records(3) obtain popped rest k where ih:
    "txn_callbacks ?m' = popped @ rest"
    "txn_callbacks (ProcessTxnCallbacks ?m') = head_released k rest"
    "map snd (released ?m') = concat (map callbacks popped) @ take k (concat (map callbacks rest))"
    "k = 0 \<or> rest \<noteq> [] \<and> k < length (callbacks (hd rest))"
    by blast
  have 1: "txn_callbacks m = (item # popped) @ rest" using ih(1) no_records(1) by simp
  have 2: "txn_callbacks (ProcessTxnCallbacks m) = head_released k rest"
    using ih(2) by (simp add: PTC_no_records [OF no_records(1,2)])
  have 3: "map snd (released m) = concat (map callbacks (item # popped)) @ take k (concat (map callbacks rest))"
    using ih(3) by (simp add: released_no_records [OF no_records(1,2)] comp_def)
  from 1 2 3 ih(4) show ?case by blast
next
  case (return m item queue remaining m1)
  from return(3) obtain fired where f: "callbacks item = fired @ remaining" "True = (remaining \<noteq> [])"
    by (rule scan_callbacks_full)
  from scan_callbacks_shape [OF return(3)] obtain fired' where
    f': "callbacks item = fired' @ remaining"
    "m1 = m\<lparr>invoked := invoked m @ map (Pair Drain_applied) fired',
            txns_applied_on_replicas := erased (txns_applied_on_replicas m) fired'\<rparr>" by blast
  let ?k = "length fired"
  have 1: "txn_callbacks m = [] @ (item # queue)" using return(1) by simp
  have 2: "txn_callbacks (ProcessTxnCallbacks m) = head_released ?k (item # queue)"
    using f(1) f' by (simp add: PTC_return [OF return(1,2,3)])
  have 3: "map snd (released m) = concat (map callbacks []) @ take ?k (concat (map callbacks (item # queue)))"
    using f(1) by (simp add: released_return [OF return(1,2,3) f(1)] comp_def)
  have 4: "?k = 0 \<or> item # queue \<noteq> [] \<and> ?k < length (callbacks (hd (item # queue)))"
    using f by simp
  from 1 2 3 4 show ?case by blast
next
  case (pop m item queue remaining m1)
  let ?m' = "m1\<lparr>txn_callbacks := queue\<rparr>"
  from pop(4) obtain popped rest k where ih:
    "txn_callbacks ?m' = popped @ rest"
    "txn_callbacks (ProcessTxnCallbacks ?m') = head_released k rest"
    "map snd (released ?m') = concat (map callbacks popped) @ take k (concat (map callbacks rest))"
    "k = 0 \<or> rest \<noteq> [] \<and> k < length (callbacks (hd rest))"
    by blast
  have 1: "txn_callbacks m = (item # popped) @ rest" using ih(1) pop(1) by simp
  have 2: "txn_callbacks (ProcessTxnCallbacks m) = head_released k rest"
    using ih(2) by (simp add: PTC_pop [OF pop(1,2,3)])
  have 3: "map snd (released m) = concat (map callbacks (item # popped)) @ take k (concat (map callbacks rest))"
    using ih(3) by (simp add: released_pop [OF pop(1,2,3)] comp_def)
  from 1 2 3 ih(4) show ?case by blast
qed

lemma head_released_append:
  "k = 0 \<or> rest \<noteq> [] \<Longrightarrow> head_released k (rest @ new) = head_released k rest @ new"
  by (cases rest) auto

lemma take_head_only:
  "k = 0 \<or> rest \<noteq> [] \<and> k < length (callbacks (hd rest)) \<Longrightarrow>
     take k (concat (map callbacks (rest @ new))) = take k (concat (map callbacks rest)) \<and>
     take k (concat (map callbacks rest)) = take k (callbacks (hd rest))"
  by (cases rest) auto

lemma Handle_queue:
  "\<exists>popped rest k. txn_callbacks m = popped @ rest \<and>
      txn_callbacks (Handle z msg m) = head_released k rest \<and>
      map snd (freed z msg m) = concat (map callbacks popped) @ take k (concat (map callbacks rest)) \<and>
      (k = 0 \<or> rest \<noteq> [] \<and> k < length (callbacks (hd rest)))"
proof (cases "complete z msg m")
  case True
  with PTC_queue [of "marked z msg m"] show ?thesis
    by (simp add: Handle_cases freed_def)
next
  case False
  then have "txn_callbacks m = [] @ txn_callbacks m \<and>
      txn_callbacks (Handle z msg m) = head_released 0 (txn_callbacks m) \<and>
      map snd (freed z msg m) = concat (map callbacks []) @ take 0 (concat (map callbacks (txn_callbacks m))) \<and>
      ((0::nat) = 0 \<or> txn_callbacks m \<noteq> [] \<and> 0 < length (callbacks (hd (txn_callbacks m))))"
    by (simp add: Handle_cases freed_def)
  then show ?thesis by blast
qed

lemma drain_composes:
  assumes "q = head_released k R" "k = 0 \<or> R \<noteq> [] \<and> k < length (callbacks (hd R))"
    and "q = P' @ R'" "k' = 0 \<or> R' \<noteq> [] \<and> k' < length (callbacks (hd R'))"
  shows "\<exists>P2 R2 k2. R = P2 @ R2 \<and> head_released k' R' = head_released k2 R2 \<and>
           take k (concat (map callbacks R)) @ concat (map callbacks P') @ take k' (concat (map callbacks R'))
             = concat (map callbacks P2) @ take k2 (concat (map callbacks R2)) \<and>
           (k2 = 0 \<or> R2 \<noteq> [] \<and> k2 < length (callbacks (hd R2)))"
proof (cases R)
  case Nil
  with assms have "P' = []" "R' = []" "k = 0" "k' = 0" by auto
  with Nil have "R = [] @ [] \<and> head_released k' R' = head_released 0 [] \<and>
           take k (concat (map callbacks R)) @ concat (map callbacks P') @ take k' (concat (map callbacks R'))
             = concat (map callbacks []) @ take 0 (concat (map callbacks [])) \<and>
           ((0::nat) = 0 \<or> [] \<noteq> [] \<and> 0 < length (callbacks (hd [])))" by simp
  then show ?thesis by blast
next
  case (Cons b later)
  let ?b' = "b\<lparr>callbacks := drop k (callbacks b)\<rparr>"
  from Cons assms(1) have q: "q = ?b' # later" by simp
  from Cons assms(2) have k: "k \<le> length (callbacks b)" by auto
  show ?thesis
  proof (cases P')
    case Nil
    with q assms(3) have R': "R' = ?b' # later" by simp
    with assms(4) have k': "k' \<le> length (callbacks b) - k" by auto
    have 1: "R = [] @ R" by simp
    have 2: "head_released k' R' = head_released (k + k') R"
      by (simp add: R' Cons add.commute)
    have "take k (callbacks b) @ take k' (drop k (callbacks b)) = take (k + k') (callbacks b)"
      by (simp add: take_add)
    then have 3: "take k (concat (map callbacks R)) @ concat (map callbacks P') @ take k' (concat (map callbacks R'))
             = concat (map callbacks []) @ take (k + k') (concat (map callbacks R))"
      using k k' by (simp add: Nil R' Cons)
    have 4: "k + k' = 0 \<or> R \<noteq> [] \<and> k + k' < length (callbacks (hd R))"
      using assms(2,4) by (auto simp: R' Cons)
    from 1 2 3 4 show ?thesis by blast
  next
    case (Cons p pp)
    with q assms(3) have e: "p = ?b'" "later = pp @ R'" by simp_all
    have 1: "R = (b # pp) @ R'" using \<open>R = b # later\<close> e(2) by simp
    have 3: "take k (concat (map callbacks R)) @ concat (map callbacks P') @ take k' (concat (map callbacks R'))
             = concat (map callbacks (b # pp)) @ take k' (concat (map callbacks R'))"
      using k by (simp add: \<open>R = b # later\<close> Cons e)
    from 1 3 assms(4) show ?thesis by blast
  qed
qed

lemma run_queue:
  "run invalid_id m0 cs = Inr m \<Longrightarrow> txn_callbacks m0 = [] \<Longrightarrow> invoked m0 = [] \<Longrightarrow>
     \<exists>popped rest k. enqueued cs = popped @ rest \<and> txn_callbacks m = head_released k rest \<and>
        drained m = concat (map callbacks popped) @ take k (concat (map callbacks rest)) \<and>
        (k = 0 \<or> rest \<noteq> [] \<and> k < length (callbacks (hd rest)))"
proof (induction rule: run_induct)
  case init
  then have "enqueued [] = [] @ [] \<and> txn_callbacks m0 = head_released 0 [] \<and>
        drained m0 = concat (map callbacks []) @ take 0 (concat (map callbacks [])) \<and>
        ((0::nat) = 0 \<or> [] \<noteq> [] \<and> 0 < length (callbacks (hd [])))"
    by (simp add: enqueued_def drained_def)
  then show ?case by blast
next
  case (step cs m1 c m2)
  from step.IH step.prems obtain P R k where ih:
    "enqueued cs = P @ R" "txn_callbacks m1 = head_released k R"
    "drained m1 = concat (map callbacks P) @ take k (concat (map callbacks R))"
    "k = 0 \<or> R \<noteq> [] \<and> k < length (callbacks (hd R))"
    by blast
  show ?case
  proof (cases c)
    case (Replicate rb cbs policy)
    with step.hyps(2) have r: "ReplicateBatchOfRecords invalid_id rb cbs policy m1 = Inr m2" by simp
    let ?new = "queued_by c"
    have 1: "enqueued (cs @ [c]) = P @ (R @ ?new)" using ih(1) by (simp add: enqueued_def)
    have 2: "txn_callbacks m2 = head_released k (R @ ?new)"
      using ih(2,4) head_released_append [of k R ?new]
      by (auto simp: ReplicateBatchOfRecords_ledger(4) [OF r] Replicate)
    have 3: "drained m2 = concat (map callbacks P) @ take k (concat (map callbacks (R @ ?new)))"
      using ih(3) take_head_only [OF ih(4), of ?new]
      by (simp add: drained_Replicate [OF r])
    have 4: "k = 0 \<or> R @ ?new \<noteq> [] \<and> k < length (callbacks (hd (R @ ?new)))"
      using ih(4) by auto
    from 1 2 3 4 show ?thesis by blast
  next
    case (TxnApplied z msg)
    with step.hyps(2) have h: "m2 = Handle z msg m1" by simp
    from Handle_queue [of m1 z msg] obtain P' R' k' where hq:
      "txn_callbacks m1 = P' @ R'" "txn_callbacks (Handle z msg m1) = head_released k' R'"
      "map snd (freed z msg m1) = concat (map callbacks P') @ take k' (concat (map callbacks R'))"
      "k' = 0 \<or> R' \<noteq> [] \<and> k' < length (callbacks (hd R'))"
      by blast
    from drain_composes [OF ih(2) ih(4) hq(1) hq(4)] obtain P2 R2 k2 where c2:
      "R = P2 @ R2" "head_released k' R' = head_released k2 R2"
      "take k (concat (map callbacks R)) @ concat (map callbacks P') @ take k' (concat (map callbacks R'))
             = concat (map callbacks P2) @ take k2 (concat (map callbacks R2))"
      "k2 = 0 \<or> R2 \<noteq> [] \<and> k2 < length (callbacks (hd R2))"
      by blast
    have 1: "enqueued (cs @ [c]) = (P @ P2) @ R2"
      using ih(1) c2(1) by (simp add: enqueued_def TxnApplied)
    have 2: "txn_callbacks m2 = head_released k2 R2" using hq(2) c2(2) by (simp add: h)
    have "drained m2 = concat (map callbacks P) @
        (take k (concat (map callbacks R)) @ concat (map callbacks P') @ take k' (concat (map callbacks R')))"
      by (simp add: h drained_Handle ih(3) hq(3))
    then have 3: "drained m2 = concat (map callbacks (P @ P2)) @ take k2 (concat (map callbacks R2))"
      by (simp only: c2(3)) simp
    from 1 2 3 c2(4) show ?thesis by blast
  qed
qed

lemma scan_callbacks_queue:
  "scan_callbacks cbs m = (early, remaining, m1) \<Longrightarrow> txn_callbacks m1 = txn_callbacks m"
  using scan_callbacks_shape [of cbs m early remaining m1] by auto

lemma scan_ignores_entry:
  "with_entry t X m m' \<Longrightarrow> t \<notin> txn_start_time ` set cbs \<Longrightarrow>
   scan_callbacks cbs m = (early, remaining, m1) \<Longrightarrow>
     \<exists>m1'. scan_callbacks cbs m' = (early, remaining, m1') \<and> with_entry t X m1 m1'"
proof (induction cbs arbitrary: m m')
  case Nil
  then show ?case by auto
next
  case (Cons cb cbs)
  from Cons.prems(1,2) have same: "all_replicas_applied m' cb = all_replicas_applied m cb"
    by (auto simp: with_entry_def all_replicas_applied_def split: option.splits)
  show ?case
  proof (cases "all_replicas_applied m cb")
    case False
    with Cons.prems same show ?thesis by auto
  next
    case True
    let ?n = "(invoke Drain_applied cb m)\<lparr>txns_applied_on_replicas :=
                 (txns_applied_on_replicas (invoke Drain_applied cb m))(txn_start_time cb := None)\<rparr>"
    let ?n' = "(invoke Drain_applied cb m')\<lparr>txns_applied_on_replicas :=
                 (txns_applied_on_replicas (invoke Drain_applied cb m'))(txn_start_time cb := None)\<rparr>"
    from Cons.prems(1,2) have w: "with_entry t X ?n ?n'"
      by (auto simp: with_entry_def invoke_def fun_upd_twist)
    from True Cons.prems(3) have "scan_callbacks cbs ?n = (early, remaining, m1)"
      by (simp add: Let_def)
    from Cons.IH [OF w _ this] Cons.prems(2) obtain m1' where
      "scan_callbacks cbs ?n' = (early, remaining, m1')" "with_entry t X m1 m1'" by auto
    with True same show ?thesis by (simp add: Let_def)
  qed
qed

lemma PTC_ignores_entry:
  "with_entry t X m m' \<Longrightarrow> t \<notin> txn_start_time ` set (pending m) \<Longrightarrow>
     with_entry t X (ProcessTxnCallbacks m) (ProcessTxnCallbacks m')"
proof (induction m arbitrary: m' rule: PTC_induct)
  case (empty m)
  then have "txn_callbacks m' = []" by (simp add: with_entry_def)
  with empty show ?case by (simp add: PTC_empty)
next
  case (no_records m item queue)
  from no_records(1,4) have q': "txn_callbacks m' = item # queue" by (simp add: with_entry_def)
  let ?n = "(fold (invoke Drain_no_records) (callbacks item) m)\<lparr>txn_callbacks := queue\<rparr>"
  let ?n' = "(fold (invoke Drain_no_records) (callbacks item) m')\<lparr>txn_callbacks := queue\<rparr>"
  from no_records(4) have w: "with_entry t X ?n ?n'"
    by (simp add: with_entry_def fold_invoke)
  from no_records(1,5) have "t \<notin> txn_start_time ` set (pending ?n)"
    by (auto simp: pending_def)
  from no_records(3) [OF w this] show ?case
    by (simp add: PTC_no_records [OF no_records(1,2)] PTC_no_records [OF q' no_records(2)])
next
  case (return m item queue remaining m1)
  from return(1,4) have q': "txn_callbacks m' = item # queue" by (simp add: with_entry_def)
  from return(1,5) have "t \<notin> txn_start_time ` set (callbacks item)" by (auto simp: pending_def)
  from scan_ignores_entry [OF return(4) this return(3)] obtain m1' where
    s: "scan_callbacks (callbacks item) m' = (True, remaining, m1')" "with_entry t X m1 m1'" by blast
  from s(2) show ?case
    by (simp add: PTC_return [OF return(1,2,3)] PTC_return [OF q' return(2) s(1)] with_entry_def)
next
  case (pop m item queue remaining m1)
  from pop(1,5) have q': "txn_callbacks m' = item # queue" by (simp add: with_entry_def)
  from pop(1,6) have "t \<notin> txn_start_time ` set (callbacks item)" by (auto simp: pending_def)
  from scan_ignores_entry [OF pop(5) this pop(3)] obtain m1' where
    s: "scan_callbacks (callbacks item) m' = (False, remaining, m1')" "with_entry t X m1 m1'" by blast
  from s(2) have w: "with_entry t X (m1\<lparr>txn_callbacks := queue\<rparr>) (m1'\<lparr>txn_callbacks := queue\<rparr>)"
    by (simp add: with_entry_def)
  from pop(1,6) have "t \<notin> txn_start_time ` set (pending (m1\<lparr>txn_callbacks := queue\<rparr>))"
    by (auto simp: pending_def)
  from pop(4) [OF w this] show ?case
    by (simp add: PTC_pop [OF pop(1,2,3)] PTC_pop [OF q' pop(2) s(1)])
qed

lemma distinct_if_count_le_1: "(\<And>a. count (mset xs) a \<le> 1) \<Longrightarrow> distinct xs"
proof (induction xs)
  case Nil
  show ?case by simp
next
  case (Cons x xs)
  have "count (mset xs) a \<le> 1" for a
  proof -
    have "count (mset xs) a \<le> count (mset (x # xs)) a" by simp
    also have "\<dots> \<le> 1" by (rule Cons.prems)
    finally show ?thesis .
  qed
  then have "distinct xs" by (rule Cons.IH)
  moreover have "count (mset xs) x = 0" using Cons.prems [of x] by simp
  then have "x \<notin> set xs" by simp
  ultimately show ?case by simp
qed

lemma distinct_of_conservation:
  assumes "mset xs + mset ys = mset zs" "distinct zs"
  shows "distinct xs"
proof -
  have c: "count (mset xs) a \<le> count (mset zs) a" for a
    unfolding assms(1) [symmetric] by simp
  have "count (mset zs) a \<le> 1" for a
    using assms(2) by (simp add: distinct_count_atmost_1)
  with c have "count (mset xs) a \<le> 1" for a
    using order_trans by blast
  then show ?thesis by (rule distinct_if_count_le_1)
qed

lemma run_conservation:
  assumes "run invalid_id m0 cs = Inr m" "txn_callbacks m0 = []" "invoked m0 = []"
  shows "mset (map snd (invoked m)) + mset (pending m) = mset (concat (map supplied_by cs))"
proof -
  have "mset (map snd (invoked m)) + mset (pending m)
          = mset (called_at_once m) + mset (drained m @ pending m)"
    unfolding mset_invoked by simp
  also have "\<dots> = mset (concat (map released_by cs)) + mset (concat (map callbacks (enqueued cs)))"
    by (simp only: run_fifo [OF assms] run_called_at_once [OF assms(1,3)])
  finally show ?thesis by (simp only: run_supplied [OF assms(1)])
qed

lemma PTC_pending_subset: "set (pending (ProcessTxnCallbacks m)) \<subseteq> set (pending m)"
proof -
  have "set (pending m) = set (map snd (released m) @ pending (ProcessTxnCallbacks m))"
    by (simp only: PTC_pending)
  then show ?thesis by auto
qed

lemma Handle_duplicate:
  assumes "txns_applied_on_replicas m (GetAppliedTxnId msg) = Some applied"
    and "GetRoutingId zmq_msg |\<in>| applied"
  shows "Handle zmq_msg msg m =
           (if fcard applied = fcard (replicas m)
            then ProcessTxnCallbacks (SendAckForMessage zmq_msg msg m)
            else SendAckForMessage zmq_msg msg m)"
proof -
  from assms(2) have f: "finsert (GetRoutingId zmq_msg) applied = applied" by auto
  have t: "(txns_applied_on_replicas m)(GetAppliedTxnId msg \<mapsto> applied) = txns_applied_on_replicas m"
    using assms(1) by (simp add: fun_upd_idem)
  have "marked zmq_msg msg m = SendAckForMessage zmq_msg msg m"
    by (simp add: marked_def assms(1) f SendAckForMessage_eq t)
  then show ?thesis by (simp add: Handle_eq assms(1) f)
qed

lemma step_ignores_entry:
  assumes w: "with_entry t X a a'" and p: "t \<notin> txn_start_time ` set (pending a)"
    and q: "\<not> concerns t d" and s: "step invalid_id a d = Inr b"
  shows "\<exists>b'. step invalid_id a' d = Inr b' \<and> with_entry t X b b' \<and>
           t \<notin> txn_start_time ` set (pending b)"
proof (cases d)
  case (Replicate rb cbs policy)
  from s Replicate have r: "ReplicateBatchOfRecords invalid_id rb cbs policy a = Inr b" by simp
  from ReplicateBatchOfRecords_ledger(1) [OF r] have np: "policy \<noteq> DISABLE" .
  then obtain b' where r': "ReplicateBatchOfRecords invalid_id rb cbs policy a' = Inr b'"
    by (simp add: ReplicateBatchOfRecords_eq)
  note l = ReplicateBatchOfRecords_ledger [OF r] and l' = ReplicateBatchOfRecords_ledger [OF r']
  from w have "with_entry t X b b'"
    by (simp add: with_entry_def l(2,3,4,5) l'(2,3,4,5))
  moreover have "t \<notin> txn_start_time ` set (pending b)"
    using p q by (auto simp: pending_def l(4) concerns_def Replicate split: if_splits)
  ultimately show ?thesis using r' Replicate by simp
next
  case (TxnApplied z msg)
  from s TxnApplied have b: "b = Handle z msg a" by simp
  from q TxnApplied have ne: "GetAppliedTxnId msg \<noteq> t" by (auto simp: concerns_def)
  from w ne have same: "txns_applied_on_replicas a' (GetAppliedTxnId msg) =
      txns_applied_on_replicas a (GetAppliedTxnId msg)"
    by (simp add: with_entry_def)
  from w same have c: "complete z msg a' = complete z msg a"
    by (simp add: complete_def with_entry_def)
  from w same ne have wm: "with_entry t X (marked z msg a) (marked z msg a')"
    by (simp add: with_entry_def fun_upd_twist)
  from p have pm: "t \<notin> txn_start_time ` set (pending (marked z msg a))"
    by (simp add: pending_marked)
  have "with_entry t X (Handle z msg a) (Handle z msg a')"
    using PTC_ignores_entry [OF wm pm] wm by (simp add: Handle_cases c)
  moreover have "set (pending (Handle z msg a)) \<subseteq> set (pending a)"
    using PTC_pending_subset [of "marked z msg a"] by (simp add: Handle_cases pending_marked)
  with p have "t \<notin> txn_start_time ` set (pending (Handle z msg a))" by auto
  ultimately show ?thesis by (simp add: b TxnApplied)
qed

lemma run_ignores_entry:
  "with_entry t X a a' \<Longrightarrow> t \<notin> txn_start_time ` set (pending a) \<Longrightarrow>
   \<forall>d \<in> set ds. \<not> concerns t d \<Longrightarrow> run invalid_id a ds = Inr b \<Longrightarrow>
     \<exists>b'. run invalid_id a' ds = Inr b' \<and> with_entry t X b b'"
proof (induction ds arbitrary: a a')
  case Nil
  then show ?case by simp
next
  case (Cons d ds)
  from Cons.prems(4) obtain c where c: "step invalid_id a d = Inr c" "run invalid_id c ds = Inr b"
    by (auto split: sum.splits)
  from Cons.prems(3) have q: "\<not> concerns t d" "\<forall>d \<in> set ds. \<not> concerns t d" by simp_all
  from step_ignores_entry [OF Cons.prems(1,2) q(1) c(1)] obtain c' where
    c': "step invalid_id a' d = Inr c'" "with_entry t X c c'" "t \<notin> txn_start_time ` set (pending c)"
    by blast
  from Cons.IH [OF c'(2,3) q(2) c(2)] obtain b' where
    "run invalid_id c' ds = Inr b'" "with_entry t X b b'" by blast
  with c'(1) show ?case by simp
qed

section \<open>The claims\<close>

text \<open>
  C1, as stated, fails: the test of lines 105 and 132 compares the number of identities in
  the transaction's set with the number of replicas and does not ask who the senders are. With
  replicas \<open>replica1\<close> and \<open>replica2\<close>, notifications from two other identities release the
  callback of a \<open>SYNC\<close> batch while neither replica has sent anything.
\<close>

theorem released_without_the_replicas:
  "run 0 (new_manager {|''replica1'', ''replica2''|} 1 1)
     [Replicate (Some \<lparr>buffer_contents = [7], MarkSerialized = True\<rparr>)
        [\<lparr>txn_start_time = 5, fn = 1, arg = 1\<rparr>] SYNC,
      TxnApplied \<lparr>GetRoutingId = ''x''\<rparr> \<lparr>GetMessageId = 1, GetAppliedTxnId = 5\<rparr>,
      TxnApplied \<lparr>GetRoutingId = ''y''\<rparr> \<lparr>GetMessageId = 2, GetAppliedTxnId = 5\<rparr>]
   = Inr ((new_manager {|''replica1'', ''replica2''|} 1 1)
       \<lparr>next_msg_id := 4, next_batch_id := 2,
        empty_buffer_queue := [\<lparr>buffer_contents = [7], MarkSerialized = True\<rparr>],
        invoked := [(Drain_applied, \<lparr>txn_start_time = 5, fn = 1, arg = 1\<rparr>)],
        sent := [({|''replica1'', ''replica2''|}, RecordsBatchMsg 1 1 \<lparr>buffer_contents = [7], MarkSerialized = True\<rparr>),
                 ({|''x''|}, AckMsg 2 1), ({|''y''|}, AckMsg 3 2)]\<rparr>) \<and>
   (''replica1'', 5) \<notin> notifications
     [Replicate (Some \<lparr>buffer_contents = [7], MarkSerialized = True\<rparr>)
        [\<lparr>txn_start_time = 5, fn = 1, arg = 1\<rparr>] SYNC,
      TxnApplied \<lparr>GetRoutingId = ''x''\<rparr> \<lparr>GetMessageId = 1, GetAppliedTxnId = 5\<rparr>,
      TxnApplied \<lparr>GetRoutingId = ''y''\<rparr> \<lparr>GetMessageId = 2, GetAppliedTxnId = 5\<rparr>]"
  by (simp add: eval_manager notifications_def)

text \<open>
  C1, amended. In every state that a run reaches from a new manager, each callback called
  out of the queue (the queue holds the \<open>SYNC\<close> batches with records) was called only after
  applied-notifications for its transaction had arrived from as many different senders as there
  are replicas; when every notification handled came from a configured replica, these senders are
  all the replicas. The callbacks called at once are those of the calls with policy \<open>ASYNC\<close>
  or without records. No callback is called more often than it was supplied: the callbacks
  called and the callbacks still queued are together exactly the callbacks supplied.
\<close>

theorem sync_callbacks_wait_for_replicas:
  assumes "run invalid_id (new_manager replica_ids first_msg_id first_batch_id) cs = Inr m"
  shows "(\<forall>cb \<in> set (drained m). \<exists>senders. fcard senders = fcard replica_ids \<and>
            (\<forall>r. r |\<in>| senders \<longrightarrow> (r, txn_start_time cb) \<in> notifications cs)) \<and>
         ((\<forall>n \<in> notifications cs. fst n |\<in>| replica_ids) \<longrightarrow>
            (\<forall>cb \<in> set (drained m). \<forall>r. r |\<in>| replica_ids \<longrightarrow>
                (r, txn_start_time cb) \<in> notifications cs)) \<and>
         called_at_once m = concat (map released_by cs) \<and>
         mset (map snd (invoked m)) + mset (pending m) = mset (concat (map supplied_by cs)) \<and>
         (distinct (concat (map supplied_by cs)) \<longrightarrow> distinct (map snd (invoked m)))"
proof -
  let ?m0 = "new_manager replica_ids first_msg_id first_batch_id"
  have m0: "txn_callbacks ?m0 = []" "invoked ?m0 = []" "txns_applied_on_replicas ?m0 = Map.empty"
    "replicas ?m0 = replica_ids"
    by (simp_all add: new_manager_def)
  have count: "\<exists>senders. fcard senders = fcard replica_ids \<and>
            (\<forall>r. r |\<in>| senders \<longrightarrow> (r, txn_start_time cb) \<in> notifications cs)"
    if "cb \<in> set (drained m)" for cb
  proof -
    from that obtain site where s: "(site, cb) \<in> set (invoked m)" "site \<noteq> Immediate"
      by (auto simp: drained_def)
    from run_no_Drain_no_records [OF assms m0(1,2)] s(1) have "site \<noteq> Drain_no_records" by auto
    with s(2) have "site = Drain_applied" by (cases site) auto
    with s(1) run_applied [OF assms m0(3,2)] show ?thesis by (simp add: m0(4))
  qed
  have all: "(r, txn_start_time cb) \<in> notifications cs"
    if ok: "\<forall>n \<in> notifications cs. fst n |\<in>| replica_ids"
      and cb: "cb \<in> set (drained m)" and r: "r |\<in>| replica_ids" for cb r
  proof -
    from count [OF cb] obtain senders where S: "fcard senders = fcard replica_ids"
      "\<forall>r. r |\<in>| senders \<longrightarrow> (r, txn_start_time cb) \<in> notifications cs" by blast
    from S(2) ok have "senders |\<subseteq>| replica_ids" by fastforce
    with S(1) have "senders = replica_ids" by (simp add: fcard_seteq)
    with S(2) r show ?thesis by simp
  qed
  have once: "mset (map snd (invoked m)) + mset (pending m) = mset (concat (map supplied_by cs))"
  proof -
    have "mset (map snd (invoked m)) + mset (pending m)
            = mset (called_at_once m) + mset (drained m @ pending m)"
      unfolding mset_invoked by simp
    also have "\<dots> = mset (concat (map released_by cs)) + mset (concat (map callbacks (enqueued cs)))"
      by (simp only: run_fifo [OF assms m0(1,2)] run_called_at_once [OF assms m0(2)])
    finally show ?thesis by (simp only: run_supplied [OF assms])
  qed
  from once have "distinct (concat (map supplied_by cs)) \<Longrightarrow> distinct (map snd (invoked m))"
    by (rule distinct_of_conservation)
  with count all once run_called_at_once [OF assms m0(2)] show ?thesis by blast
qed

theorem sync_callbacks_wait_for_replicas_witness:
  "run 0 (new_manager two_replicas 1 1)
     [Replicate (Some example_buffer) [callback_of 5] SYNC,
      applied_from ''replica1'' 1 5, applied_from ''replica2'' 2 5]
   = Inr fired_manager \<and>
   drained fired_manager = [callback_of 5] \<and>
   (''replica1'', 5) \<in> notifications
     [Replicate (Some example_buffer) [callback_of 5] SYNC,
      applied_from ''replica1'' 1 5, applied_from ''replica2'' 2 5] \<and>
   (''replica2'', 5) \<in> notifications
     [Replicate (Some example_buffer) [callback_of 5] SYNC,
      applied_from ''replica1'' 1 5, applied_from ''replica2'' 2 5] \<and>
   called_at_once fired_manager = [] \<and>
   distinct (map snd (invoked fired_manager))"
proof -
  let ?cs = "[Replicate (Some example_buffer) [callback_of 5] SYNC,
      applied_from ''replica1'' 1 5, applied_from ''replica2'' 2 5]"
  have r: "run 0 (new_manager two_replicas 1 1) ?cs = Inr fired_manager"
    by (simp add: eval_manager)
  have ok: "\<forall>n \<in> notifications ?cs. fst n |\<in>| two_replicas"
    by (simp add: notifications_def)
  have d: "drained fired_manager = [callback_of 5]" "distinct (concat (map supplied_by ?cs))"
    by (simp_all add: drained_def new_manager_def)
  from sync_callbacks_wait_for_replicas [OF r] ok d r show ?thesis
    by simp
qed

text \<open>
  C2. In every state that a run reaches from a new manager, the callbacks called out of the
  queue so far, followed by the callbacks still queued, are the callbacks of the batches in
  the order the batches were queued: callbacks leave the queue in queue order only, so a
  callback of a later batch is never called before all callbacks of an earlier batch. And the
  drain never looks past the head: when, after the insertion, the set of the first callback of
  the head batch is still not complete, \<^verbatim>\<open>Handle\<close> calls nothing and leaves the queue as it
  was, whatever has been acknowledged for the callbacks behind it.
\<close>

theorem head_of_line_blocking:
  assumes "run invalid_id (new_manager replica_ids first_msg_id first_batch_id) cs = Inr m"
  shows "drained m @ pending m = concat (map callbacks (enqueued cs)) \<and>
         (\<forall>zmq_msg msg item queue cb rest.
            txn_callbacks m = item # queue \<and> callbacks item = cb # rest \<and>
            \<not> all_replicas_applied (marked zmq_msg msg m) cb \<longrightarrow>
              invoked (Handle zmq_msg msg m) = invoked m \<and>
              txn_callbacks (Handle zmq_msg msg m) = txn_callbacks m)"
proof -
  let ?m0 = "new_manager replica_ids first_msg_id first_batch_id"
  have m0: "txn_callbacks ?m0 = []" "invoked ?m0 = []" by (simp_all add: new_manager_def)
  have "Handle zmq_msg msg m = marked zmq_msg msg m"
    if q: "txn_callbacks m = item # queue" "callbacks item = cb # rest"
      and n: "\<not> all_replicas_applied (marked zmq_msg msg m) cb"
    for zmq_msg msg item queue cb rest
  proof -
    from run_has_records [OF assms m0(1)] q(1) have h: "has_records item" by simp
    from q(1) have "txn_callbacks (marked zmq_msg msg m) = item # queue" by simp
    from PTC_blocked [OF this h q(2) n] show ?thesis by (simp add: Handle_cases)
  qed
  then have "\<forall>zmq_msg msg item queue cb rest.
            txn_callbacks m = item # queue \<and> callbacks item = cb # rest \<and>
            \<not> all_replicas_applied (marked zmq_msg msg m) cb \<longrightarrow>
              invoked (Handle zmq_msg msg m) = invoked m \<and>
              txn_callbacks (Handle zmq_msg msg m) = txn_callbacks m"
    by (metis marked_fields(2,3))
  with run_fifo [OF assms m0] show ?thesis by blast
qed

theorem head_of_line_blocking_witness:
  "run 0 (new_manager two_replicas 1 1)
     [Replicate (Some example_buffer) [callback_of 5] SYNC,
      Replicate (Some example_buffer) [callback_of 6] SYNC,
      applied_from ''replica1'' 1 6]
   = Inr blocked_manager \<and>
   txns_applied_on_replicas
     (Handle \<lparr>GetRoutingId = ''replica2''\<rparr> \<lparr>GetMessageId = 2, GetAppliedTxnId = 6\<rparr> blocked_manager) 6
     = Some {|''replica2'', ''replica1''|} \<and>
   invoked (Handle \<lparr>GetRoutingId = ''replica2''\<rparr> \<lparr>GetMessageId = 2, GetAppliedTxnId = 6\<rparr> blocked_manager)
     = [] \<and>
   txn_callbacks (Handle \<lparr>GetRoutingId = ''replica2''\<rparr> \<lparr>GetMessageId = 2, GetAppliedTxnId = 6\<rparr> blocked_manager)
     = [batch_of [callback_of 5], batch_of [callback_of 6]]"
proof -
  let ?cs = "[Replicate (Some example_buffer) [callback_of 5] SYNC,
      Replicate (Some example_buffer) [callback_of 6] SYNC,
      applied_from ''replica1'' 1 6]"
  let ?z = "\<lparr>GetRoutingId = ''replica2''\<rparr>"
  let ?msg = "\<lparr>GetMessageId = 2, GetAppliedTxnId = 6\<rparr>"
  have r: "run 0 (new_manager two_replicas 1 1) ?cs = Inr blocked_manager"
    by (simp add: eval_manager)
  have q: "txn_callbacks blocked_manager = batch_of [callback_of 5] # [batch_of [callback_of 6]]"
    "callbacks (batch_of [callback_of 5]) = callback_of 5 # []"
    by (simp_all add: new_manager_def)
  have n: "\<not> all_replicas_applied (marked ?z ?msg blocked_manager) (callback_of 5)"
    by (simp add: all_replicas_applied_def new_manager_def)
  have t: "txns_applied_on_replicas (Handle ?z ?msg blocked_manager) 6 = Some {|''replica2'', ''replica1''|}"
    by (simp add: eval_manager)
  from head_of_line_blocking [OF r] q n have
    "invoked (Handle ?z ?msg blocked_manager) = invoked blocked_manager \<and>
     txn_callbacks (Handle ?z ?msg blocked_manager) = txn_callbacks blocked_manager"
    by blast
  with r t show ?thesis by (simp add: new_manager_def)
qed

text \<open>
  C3. A call of \<^verbatim>\<open>ReplicateBatchOfRecords\<close> with policy \<open>ASYNC\<close>, or with no record batch, calls
  every callback it was given before it returns, each once and in the order given (the record of
  calls grows by exactly these callbacks, marked \<open>Immediate\<close>), and leaves the queue as it was.
  The policy is not \<open>DISABLE\<close>, which the assertion at the entry rules out.
\<close>

theorem ReplicateBatchOfRecords_immediate:
  assumes "policy \<noteq> DISABLE" and "policy = ASYNC \<or> records_batch = None"
  shows "\<exists>m1. ReplicateBatchOfRecords invalid_id records_batch commit_callbacks policy m = Inr m1 \<and>
           invoked m1 = invoked m @ map (Pair Immediate) commit_callbacks \<and>
           txn_callbacks m1 = txn_callbacks m"
  using assms by (auto simp: ReplicateBatchOfRecords_eq)

theorem ReplicateBatchOfRecords_immediate_witness:
  "ASYNC \<noteq> DISABLE \<and> (ASYNC = ASYNC \<or> Some \<lparr>buffer_contents = [7], MarkSerialized = True\<rparr> = None) \<and>
   (\<exists>m1. ReplicateBatchOfRecords 0 (Some \<lparr>buffer_contents = [7], MarkSerialized = True\<rparr>)
            [\<lparr>txn_start_time = 5, fn = 1, arg = 1\<rparr>, \<lparr>txn_start_time = 6, fn = 1, arg = 2\<rparr>] ASYNC
            (new_manager {|''replica1''|} 1 1) = Inr m1 \<and>
         invoked m1 = [(Immediate, \<lparr>txn_start_time = 5, fn = 1, arg = 1\<rparr>),
                       (Immediate, \<lparr>txn_start_time = 6, fn = 1, arg = 2\<rparr>)] \<and>
         txn_callbacks m1 = [])"
  using ReplicateBatchOfRecords_immediate [of ASYNC "Some \<lparr>buffer_contents = [7], MarkSerialized = True\<rparr>" 0
      "[\<lparr>txn_start_time = 5, fn = 1, arg = 1\<rparr>, \<lparr>txn_start_time = 6, fn = 1, arg = 2\<rparr>]"
      "new_manager {|''replica1''|} 1 1"]
  by (simp add: new_manager_def)

text \<open>
  C4, as stated, fails: the scan erases each callback it calls from the head batch and
  returns at the first callback that is not ready, so the head batch stays in the queue with
  part of its callbacks called. Here the batch was queued with the callbacks of transactions 5
  and 6; after both replicas have applied transaction 5, the first callback has been called
  and the batch is still queued, with the second one.
\<close>

theorem head_batch_partly_released:
  "enqueued
     [Replicate (Some example_buffer) [callback_of 5, callback_of 6] SYNC,
      applied_from ''replica1'' 1 5, applied_from ''replica2'' 2 5]
   = [batch_of [callback_of 5, callback_of 6]] \<and>
   run 0 (new_manager two_replicas 1 1)
     [Replicate (Some example_buffer) [callback_of 5, callback_of 6] SYNC,
      applied_from ''replica1'' 1 5, applied_from ''replica2'' 2 5]
   = Inr ((new_manager two_replicas 1 1)
       \<lparr>next_msg_id := 4, next_batch_id := 2, empty_buffer_queue := [example_buffer],
        txn_callbacks := [batch_of [callback_of 6]],
        invoked := [(Drain_applied, callback_of 5)],
        sent := [(two_replicas, RecordsBatchMsg 1 1 example_buffer),
                 ({|''replica1''|}, AckMsg 2 1), ({|''replica2''|}, AckMsg 3 2)]\<rparr>)"
  by (simp add: eval_manager enqueued_def)

text \<open>
  C4, amended. In every state that a run reaches from a new manager, the batches queued so
  far split into the batches popped and the batches still in the queue. Every callback of a
  popped batch has been called. The batches behind the head of the queue are as they were
  queued, none of their callbacks called. The head batch may have been released in part: its
  first \<open>k\<close> callbacks have been called and erased from it, and the others are still in it.
\<close>

theorem batches_popped_when_exhausted:
  assumes "run invalid_id (new_manager replica_ids first_msg_id first_batch_id) cs = Inr m"
  shows "\<exists>popped rest k. enqueued cs = popped @ rest \<and> txn_callbacks m = head_released k rest \<and>
           drained m = concat (map callbacks popped) @ take k (concat (map callbacks rest)) \<and>
           (k = 0 \<or> rest \<noteq> [] \<and> k < length (callbacks (hd rest)))"
  using run_queue [OF assms] by (simp add: new_manager_def)

theorem batches_popped_when_exhausted_witness:
  "run 0 (new_manager {|''replica1''|} 1 1)
     [Replicate (Some example_buffer) [callback_of 3] SYNC,
      Replicate (Some example_buffer) [callback_of 5, callback_of 6] SYNC,
      Replicate (Some example_buffer) [callback_of 7] SYNC,
      applied_from ''replica1'' 1 5, applied_from ''replica1'' 2 3]
   = Inr ((new_manager {|''replica1''|} 1 1)
       \<lparr>next_msg_id := 6, next_batch_id := 4,
        empty_buffer_queue := [example_buffer, example_buffer, example_buffer],
        txn_callbacks := [batch_of [callback_of 6], batch_of [callback_of 7]],
        invoked := [(Drain_applied, callback_of 3), (Drain_applied, callback_of 5)],
        sent := [({|''replica1''|}, RecordsBatchMsg 1 1 example_buffer),
                 ({|''replica1''|}, RecordsBatchMsg 2 2 example_buffer),
                 ({|''replica1''|}, RecordsBatchMsg 3 3 example_buffer),
                 ({|''replica1''|}, AckMsg 4 1), ({|''replica1''|}, AckMsg 5 2)]\<rparr>) \<and>
   (\<exists>popped rest k.
      [batch_of [callback_of 3], batch_of [callback_of 5, callback_of 6], batch_of [callback_of 7]]
        = popped @ rest \<and>
      [batch_of [callback_of 6], batch_of [callback_of 7]] = head_released k rest \<and>
      [callback_of 3, callback_of 5] = concat (map callbacks popped) @ take k (concat (map callbacks rest)) \<and>
      (k = 0 \<or> rest \<noteq> [] \<and> k < length (callbacks (hd rest))))"
proof -
  let ?cs = "[Replicate (Some example_buffer) [callback_of 3] SYNC,
      Replicate (Some example_buffer) [callback_of 5, callback_of 6] SYNC,
      Replicate (Some example_buffer) [callback_of 7] SYNC,
      applied_from ''replica1'' 1 5, applied_from ''replica1'' 2 3]"
  let ?M = "(new_manager {|''replica1''|} 1 1)
       \<lparr>next_msg_id := 6, next_batch_id := 4,
        empty_buffer_queue := [example_buffer, example_buffer, example_buffer],
        txn_callbacks := [batch_of [callback_of 6], batch_of [callback_of 7]],
        invoked := [(Drain_applied, callback_of 3), (Drain_applied, callback_of 5)],
        sent := [({|''replica1''|}, RecordsBatchMsg 1 1 example_buffer),
                 ({|''replica1''|}, RecordsBatchMsg 2 2 example_buffer),
                 ({|''replica1''|}, RecordsBatchMsg 3 3 example_buffer),
                 ({|''replica1''|}, AckMsg 4 1), ({|''replica1''|}, AckMsg 5 2)]\<rparr>"
  have r: "run 0 (new_manager {|''replica1''|} 1 1) ?cs = Inr ?M"
    by (simp add: eval_manager)
  have e: "enqueued ?cs =
      [batch_of [callback_of 3], batch_of [callback_of 5, callback_of 6], batch_of [callback_of 7]]"
    by (simp add: enqueued_def)
  have d: "drained ?M = [callback_of 3, callback_of 5]"
    "txn_callbacks ?M = [batch_of [callback_of 6], batch_of [callback_of 7]]"
    by (simp_all add: drained_def new_manager_def)
  from batches_popped_when_exhausted [OF r] show ?thesis
    unfolding e d using r by simp
qed

text \<open>
  C5, as stated, fails: the entry that a duplicate creates after the callback has fired is
  looked up again. The table is keyed by the transaction identifier alone and nothing
  remembers that a callback has fired. Below, the callback of transaction 5 fires after both
  replicas have applied it, and \<open>replica1\<close> then delivers its notification a second time. When
  a later batch carries a callback with the same identifier, the notification of \<open>replica2\<close>
  alone completes the set the duplicate began, and the drain calls that callback. The same
  calls without the duplicate leave it queued.
\<close>

theorem stale_entry_consulted:
  "run 0 (new_manager two_replicas 1 1)
     [Replicate (Some example_buffer) [callback_of 5] SYNC,
      applied_from ''replica1'' 1 5, applied_from ''replica2'' 2 5,
      applied_from ''replica1'' 1 5,
      Replicate (Some example_buffer) [\<lparr>txn_start_time = 5, fn = 1, arg = 2\<rparr>] SYNC,
      applied_from ''replica2'' 3 5]
   = Inr ((new_manager two_replicas 1 1)
       \<lparr>next_msg_id := 7, next_batch_id := 3, empty_buffer_queue := [example_buffer, example_buffer],
        invoked := [(Drain_applied, callback_of 5),
                    (Drain_applied, \<lparr>txn_start_time = 5, fn = 1, arg = 2\<rparr>)],
        sent := [(two_replicas, RecordsBatchMsg 1 1 example_buffer),
                 ({|''replica1''|}, AckMsg 2 1), ({|''replica2''|}, AckMsg 3 2),
                 ({|''replica1''|}, AckMsg 4 1),
                 (two_replicas, RecordsBatchMsg 5 2 example_buffer),
                 ({|''replica2''|}, AckMsg 6 3)]\<rparr>) \<and>
   run 0 (new_manager two_replicas 1 1)
     [Replicate (Some example_buffer) [callback_of 5] SYNC,
      applied_from ''replica1'' 1 5, applied_from ''replica2'' 2 5,
      Replicate (Some example_buffer) [\<lparr>txn_start_time = 5, fn = 1, arg = 2\<rparr>] SYNC,
      applied_from ''replica2'' 3 5]
   = Inr ((new_manager two_replicas 1 1)
       \<lparr>next_msg_id := 6, next_batch_id := 3, empty_buffer_queue := [example_buffer, example_buffer],
        txn_callbacks := [batch_of [\<lparr>txn_start_time = 5, fn = 1, arg = 2\<rparr>]],
        txns_applied_on_replicas := [5 \<mapsto> {|''replica2''|}],
        invoked := [(Drain_applied, callback_of 5)],
        sent := [(two_replicas, RecordsBatchMsg 1 1 example_buffer),
                 ({|''replica1''|}, AckMsg 2 1), ({|''replica2''|}, AckMsg 3 2),
                 (two_replicas, RecordsBatchMsg 4 2 example_buffer),
                 ({|''replica2''|}, AckMsg 5 3)]\<rparr>)"
  by (simp add: eval_manager)

text \<open>
  C5, amended. Handling an applied-notification, delivered before or not, never calls a
  callback a second time: afterwards the callbacks called and the callbacks still queued are
  together exactly the callbacks supplied. While the pair of transaction and sender is still
  in the table, a second delivery leaves the ledger as it is: \<^verbatim>\<open>Handle\<close> sends the
  acknowledgement and, when the set is complete, runs the drain, and nothing else. A
  notification that arrives when no callback of its transaction is queued, as a duplicate
  does after the callback has fired, enters the sender in the table and at most starts a
  drain. As long as the calls that follow neither supply a callback of that transaction nor
  deliver a notification for it, the entry is not consulted: they leave the same queue and
  the same callbacks called as without the entry, and the tables differ in that entry only.
\<close>

theorem repeated_applied_notification:
  assumes "run invalid_id (new_manager replica_ids first_msg_id first_batch_id) cs = Inr m"
  shows "mset (map snd (invoked (Handle zmq_msg msg m))) + mset (pending (Handle zmq_msg msg m))
           = mset (concat (map supplied_by cs)) \<and>
         (distinct (concat (map supplied_by cs)) \<longrightarrow>
            distinct (map snd (invoked (Handle zmq_msg msg m)))) \<and>
         (\<forall>applied. txns_applied_on_replicas m (GetAppliedTxnId msg) = Some applied \<and>
              GetRoutingId zmq_msg |\<in>| applied \<longrightarrow>
            Handle zmq_msg msg m =
              (if fcard applied = fcard (replicas m)
               then ProcessTxnCallbacks (SendAckForMessage zmq_msg msg m)
               else SendAckForMessage zmq_msg msg m)) \<and>
         (GetAppliedTxnId msg \<notin> txn_start_time ` set (pending m) \<longrightarrow>
            (\<forall>ds n. (\<forall>d \<in> set ds. \<not> concerns (GetAppliedTxnId msg) d) \<and>
               run invalid_id (if complete zmq_msg msg m then ProcessTxnCallbacks m else m) ds = Inr n \<longrightarrow>
               (\<exists>n'. run invalid_id (Handle zmq_msg msg m) ds = Inr n' \<and>
                  with_entry (GetAppliedTxnId msg)
                    (finsert (GetRoutingId zmq_msg)
                       (case txns_applied_on_replicas m (GetAppliedTxnId msg) of
                          None \<Rightarrow> {||} | Some applied \<Rightarrow> applied))
                    n n')))"
proof -
  let ?m0 = "new_manager replica_ids first_msg_id first_batch_id"
  let ?t = "GetAppliedTxnId msg"
  let ?X = "finsert (GetRoutingId zmq_msg)
                 (case txns_applied_on_replicas m ?t of None \<Rightarrow> {||} | Some applied \<Rightarrow> applied)"
  let ?base = "if complete zmq_msg msg m then ProcessTxnCallbacks m else m"
  have m0: "txn_callbacks ?m0 = []" "invoked ?m0 = []" by (simp_all add: new_manager_def)
  have "run invalid_id ?m0 (cs @ [TxnApplied zmq_msg msg]) = Inr (Handle zmq_msg msg m)"
    using assms by (simp add: run_snoc)
  from run_conservation [OF this m0] have 1:
    "mset (map snd (invoked (Handle zmq_msg msg m))) + mset (pending (Handle zmq_msg msg m))
           = mset (concat (map supplied_by cs))" by simp
  from 1 have 2: "distinct (concat (map supplied_by cs)) \<Longrightarrow>
      distinct (map snd (invoked (Handle zmq_msg msg m)))"
    by (rule distinct_of_conservation)
  have 3: "Handle zmq_msg msg m =
              (if fcard applied = fcard (replicas m)
               then ProcessTxnCallbacks (SendAckForMessage zmq_msg msg m)
               else SendAckForMessage zmq_msg msg m)"
    if "txns_applied_on_replicas m ?t = Some applied" "GetRoutingId zmq_msg |\<in>| applied" for applied
    using that by (rule Handle_duplicate)
  have 4: "\<exists>n'. run invalid_id (Handle zmq_msg msg m) ds = Inr n' \<and> with_entry ?t ?X n n'"
    if p: "?t \<notin> txn_start_time ` set (pending m)"
      and q: "\<forall>d \<in> set ds. \<not> concerns ?t d" and r: "run invalid_id ?base ds = Inr n" for ds n
  proof -
    have w: "with_entry ?t ?X m (marked zmq_msg msg m)" by (simp add: with_entry_def)
    from PTC_ignores_entry [OF w p] w have wb: "with_entry ?t ?X ?base (Handle zmq_msg msg m)"
      by (simp add: Handle_cases)
    have "set (pending ?base) \<subseteq> set (pending m)" using PTC_pending_subset [of m] by simp
    with p have pb: "?t \<notin> txn_start_time ` set (pending ?base)" by auto
    from run_ignores_entry [OF wb pb q r] show ?thesis .
  qed
  from 1 2 3 4 show ?thesis by blast
qed

theorem repeated_applied_notification_witness:
  "run 0 (new_manager two_replicas 1 1)
     [Replicate (Some example_buffer) [callback_of 5] SYNC, applied_from ''replica1'' 1 5]
   = Inr waiting_manager \<and>
   Handle \<lparr>GetRoutingId = ''replica1''\<rparr> \<lparr>GetMessageId = 1, GetAppliedTxnId = 5\<rparr> waiting_manager
     = waiting_manager\<lparr>next_msg_id := 4,
         sent := [(two_replicas, RecordsBatchMsg 1 1 example_buffer), ({|''replica1''|}, AckMsg 2 1),
                  ({|''replica1''|}, AckMsg 3 1)]\<rparr> \<and>
   run 0 (new_manager two_replicas 1 1)
     [Replicate (Some example_buffer) [callback_of 5] SYNC,
      applied_from ''replica1'' 1 5, applied_from ''replica2'' 2 5]
   = Inr fired_manager \<and>
   distinct (map snd (invoked
     (Handle \<lparr>GetRoutingId = ''replica1''\<rparr> \<lparr>GetMessageId = 1, GetAppliedTxnId = 5\<rparr> fired_manager))) \<and>
   (\<exists>n'. run 0 (Handle \<lparr>GetRoutingId = ''replica1''\<rparr> \<lparr>GetMessageId = 1, GetAppliedTxnId = 5\<rparr> fired_manager)
           [Replicate (Some example_buffer) [callback_of 6] SYNC,
            applied_from ''replica1'' 3 6, applied_from ''replica2'' 4 6] = Inr n' \<and>
         with_entry 5 {|''replica1''|}
           (fired_manager
              \<lparr>next_msg_id := 7, next_batch_id := 3, empty_buffer_queue := [example_buffer, example_buffer],
               invoked := [(Drain_applied, callback_of 5), (Drain_applied, callback_of 6)],
               sent := [(two_replicas, RecordsBatchMsg 1 1 example_buffer),
                        ({|''replica1''|}, AckMsg 2 1), ({|''replica2''|}, AckMsg 3 2),
                        (two_replicas, RecordsBatchMsg 4 2 example_buffer),
                        ({|''replica1''|}, AckMsg 5 3), ({|''replica2''|}, AckMsg 6 4)]\<rparr>)
           n')"
proof -
  let ?z = "\<lparr>GetRoutingId = ''replica1''\<rparr>"
  let ?msg = "\<lparr>GetMessageId = 1, GetAppliedTxnId = 5\<rparr>"
  let ?cs1 = "[Replicate (Some example_buffer) [callback_of 5] SYNC, applied_from ''replica1'' 1 5]"
  let ?cs2 = "[Replicate (Some example_buffer) [callback_of 5] SYNC,
      applied_from ''replica1'' 1 5, applied_from ''replica2'' 2 5]"
  let ?ds = "[Replicate (Some example_buffer) [callback_of 6] SYNC,
            applied_from ''replica1'' 3 6, applied_from ''replica2'' 4 6]"
  let ?N = "fired_manager
              \<lparr>next_msg_id := 7, next_batch_id := 3, empty_buffer_queue := [example_buffer, example_buffer],
               invoked := [(Drain_applied, callback_of 5), (Drain_applied, callback_of 6)],
               sent := [(two_replicas, RecordsBatchMsg 1 1 example_buffer),
                        ({|''replica1''|}, AckMsg 2 1), ({|''replica2''|}, AckMsg 3 2),
                        (two_replicas, RecordsBatchMsg 4 2 example_buffer),
                        ({|''replica1''|}, AckMsg 5 3), ({|''replica2''|}, AckMsg 6 4)]\<rparr>"
  have r1: "run 0 (new_manager two_replicas 1 1) ?cs1 = Inr waiting_manager"
    by (simp add: eval_manager)
  have r2: "run 0 (new_manager two_replicas 1 1) ?cs2 = Inr fired_manager"
    by (simp add: eval_manager)
  have a: "txns_applied_on_replicas waiting_manager (GetAppliedTxnId ?msg) = Some {|''replica1''|}"
    "GetRoutingId ?z |\<in>| {|''replica1''|}"
    "fcard {|''replica1''|} \<noteq> fcard (replicas waiting_manager)"
    by (simp_all add: new_manager_def fcard_finsert_if)
  have s: "SendAckForMessage ?z ?msg waiting_manager
     = waiting_manager\<lparr>next_msg_id := 4,
         sent := [(two_replicas, RecordsBatchMsg 1 1 example_buffer), ({|''replica1''|}, AckMsg 2 1),
                  ({|''replica1''|}, AckMsg 3 1)]\<rparr>"
    by (simp add: SendAckForMessage_eq new_manager_def)
  from repeated_applied_notification [OF r1, of ?z ?msg] a(1,2)
  have "Handle ?z ?msg waiting_manager =
      (if fcard {|''replica1''|} = fcard (replicas waiting_manager)
       then ProcessTxnCallbacks (SendAckForMessage ?z ?msg waiting_manager)
       else SendAckForMessage ?z ?msg waiting_manager)"
    by blast
  with a(3) have 1: "Handle ?z ?msg waiting_manager = SendAckForMessage ?z ?msg waiting_manager"
    by (simp only: if_False)
  have b: "GetAppliedTxnId ?msg \<notin> txn_start_time ` set (pending fired_manager)"
    "\<not> complete ?z ?msg fired_manager"
    "\<forall>d \<in> set ?ds. \<not> concerns (GetAppliedTxnId ?msg) d"
    "distinct (concat (map supplied_by ?cs2))"
    by (simp_all add: pending_def new_manager_def complete_def fcard_finsert_if concerns_def)
  have n: "run 0 fired_manager ?ds = Inr ?N"
    by (simp add: eval_manager)
  note T = repeated_applied_notification [OF r2, of ?z ?msg]
  from T b(4) have 2: "distinct (map snd (invoked (Handle ?z ?msg fired_manager)))" by blast
  have base: "(if complete ?z ?msg fired_manager then ProcessTxnCallbacks fired_manager
               else fired_manager) = fired_manager"
    by (simp only: b(2) if_False)
  have x: "GetAppliedTxnId ?msg = 5"
    "finsert (GetRoutingId ?z)
       (case txns_applied_on_replicas fired_manager 5 of None \<Rightarrow> {||} | Some applied \<Rightarrow> applied)
     = {|''replica1''|}"
    by (simp_all add: new_manager_def)
  from T b(1) have "\<forall>ds n. (\<forall>d \<in> set ds. \<not> concerns (GetAppliedTxnId ?msg) d) \<and>
       run 0 (if complete ?z ?msg fired_manager then ProcessTxnCallbacks fired_manager
              else fired_manager) ds = Inr n \<longrightarrow>
       (\<exists>n'. run 0 (Handle ?z ?msg fired_manager) ds = Inr n' \<and>
          with_entry (GetAppliedTxnId ?msg)
            (finsert (GetRoutingId ?z)
               (case txns_applied_on_replicas fired_manager (GetAppliedTxnId ?msg) of
                  None \<Rightarrow> {||} | Some applied \<Rightarrow> applied))
            n n')"
    by blast
  with b(3) n have "\<exists>n'. run 0 (Handle ?z ?msg fired_manager) ?ds = Inr n' \<and>
          with_entry (GetAppliedTxnId ?msg)
            (finsert (GetRoutingId ?z)
               (case txns_applied_on_replicas fired_manager (GetAppliedTxnId ?msg) of
                  None \<Rightarrow> {||} | Some applied \<Rightarrow> applied))
            ?N n'"
    unfolding base by blast
  then have 3: "\<exists>n'. run 0 (Handle ?z ?msg fired_manager) ?ds = Inr n' \<and>
      with_entry 5 {|''replica1''|} ?N n'"
    unfolding x .
  from 1 s have h1: "Handle ?z ?msg waiting_manager
     = waiting_manager\<lparr>next_msg_id := 4,
         sent := [(two_replicas, RecordsBatchMsg 1 1 example_buffer), ({|''replica1''|}, AckMsg 2 1),
                  ({|''replica1''|}, AckMsg 3 1)]\<rparr>"
    by (rule trans)
  from r1 h1 r2 2 3 show ?thesis by (intro conjI)
qed

text \<open>
  C6, as stated, fails: the counter is a 64-bit word. Started at 1 with the sentinel 0, the
  2^64 identifiers issued by 2^64 successive calls are neither increasing nor free of repetition:
  the call after the one that returns 2^64 - 1 skips the sentinel and returns 1 again.
\<close>

theorem GetNextBatchId_wraps:
  "\<not> sorted_wrt (<) (fst (GetNextBatchId_times 0 (2 ^ 64) (new_manager {||} 1 1))) \<and>
   \<not> distinct (fst (GetNextBatchId_times 0 (2 ^ 64) (new_manager {||} 1 1)))"
proof -
  define N :: nat where "N = 2 ^ 64"
  define m0 where "m0 = new_manager {||} 1 1"
  define k where "k = N - 2"
  define xs where "xs = fst (GetNextBatchId_times 0 k m0)"
  define ma where "ma = snd (GetNextBatchId_times 0 k m0)"
  have n0: "next_batch_id m0 = 1" by (simp add: m0_def new_manager_def)
  have k0: "0 < k" "k + 2 = N" "1 + k < N" by (simp_all add: k_def N_def)
  have "(0 :: 64 word) < next_batch_id m0" by (simp add: n0)
  moreover have "unat (next_batch_id m0) + k < N" using k0 by (simp add: n0)
  ultimately have a: "ma = m0\<lparr>next_batch_id := next_batch_id m0 + of_nat k\<rparr>" "hd xs = 1"
    using GetNextBatchId_times_no_skip_aux [of N 0 m0 k] k0(1) n0
    by (simp_all add: N_def ma_def xs_def)
  have "(1 :: 64 word) + of_nat k = of_nat (1 + k)" by simp
  also have "1 + k = N - 1" using k0 by simp
  also have "(of_nat (N - 1) :: 64 word) = - 1" by (simp add: N_def)
  finally have "next_batch_id ma = - 1" by (simp add: a n0)
  then have two: "fst (GetNextBatchId_times 0 2 ma) = [- 1, 1]"
    by (simp add: numeral_2_eq_2 GetNextBatchId_eq split_def)
  have "xs \<noteq> []"
  proof -
    obtain k' where "k = Suc k'" using k0(1) by (cases k) auto
    then show ?thesis by (simp add: xs_def split_def Let_def)
  qed
  with a(2) have one: "1 \<in> set xs" by (cases xs) auto
  have "fst (GetNextBatchId_times 0 (k + 2) m0) = xs @ fst (GetNextBatchId_times 0 2 ma)"
    by (simp only: GetNextBatchId_times_add fst_conv xs_def ma_def)
  then have "fst (GetNextBatchId_times 0 (k + 2) m0) = xs @ [- 1, 1]"
    by (simp only: two)
  then have ids: "fst (GetNextBatchId_times 0 (2 ^ 64) (new_manager {||} 1 1)) = xs @ [- 1, 1]"
    unfolding k0(2) N_def m0_def .
  have "\<not> ((- 1 :: 64 word) < 1)" by (simp add: word_less_1)
  then have "\<not> sorted_wrt (<) (xs @ [- 1, 1 :: 64 word])" by (simp add: sorted_wrt_append)
  moreover have "\<not> distinct (xs @ [- 1, 1 :: 64 word])" using one by simp
  ultimately show ?thesis unfolding ids by blast
qed

text \<open>
  C6, amended. Started at a value other than the sentinel, successive calls of
  \<^verbatim>\<open>GetNextBatchId\<close> never return the sentinel and never leave the counter on it (the
  counter skips it). As long as the counter has not wrapped around (the start, plus the number
  of calls, plus one for the skip when the sentinel lies ahead, is at most 2^64), the
  identifiers returned are strictly increasing and hence never reused.
\<close>

theorem GetNextBatchId_ids:
  assumes "next_batch_id m \<noteq> invalid_id" and "GetNextBatchId_times invalid_id k m = (ids, m1)"
  shows "invalid_id \<notin> set ids \<and> next_batch_id m1 \<noteq> invalid_id \<and>
         (unat (next_batch_id m) + k + (if next_batch_id m \<le> invalid_id then 1 else 0) \<le> 2 ^ 64
            \<longrightarrow> sorted_wrt (<) ids \<and> distinct ids)"
proof -
  have "sorted_wrt (<) ids \<Longrightarrow> distinct ids"
    by (simp add: strict_sorted_iff)
  with GetNextBatchId_times_never_invalid [OF assms] GetNextBatchId_times_increasing [OF assms]
  show ?thesis by blast
qed

theorem GetNextBatchId_ids_witness:
  "next_batch_id (new_manager {||} 1 1) \<noteq> 3 \<and>
   GetNextBatchId_times 3 3 (new_manager {||} 1 1) = ([1, 2, 4], (new_manager {||} 1 1)\<lparr>next_batch_id := 5\<rparr>) \<and>
   unat (next_batch_id (new_manager {||} 1 1)) + 3 + (if next_batch_id (new_manager {||} 1 1) \<le> 3 then 1 else 0) \<le> 2 ^ 64 \<and>
   3 \<notin> set [1, 2, 4 :: 64 word] \<and> sorted_wrt (<) [1, 2, 4 :: 64 word] \<and> distinct [1, 2, 4 :: 64 word]"
proof -
  have n: "next_batch_id (new_manager {||} 1 1) \<noteq> 3" by (simp add: new_manager_def)
  have t: "GetNextBatchId_times 3 3 (new_manager {||} 1 1) = ([1, 2, 4], (new_manager {||} 1 1)\<lparr>next_batch_id := 5\<rparr>)"
    by (simp add: numeral_3_eq_3 GetNextBatchId_eq new_manager_def)
  have b: "unat (next_batch_id (new_manager {||} 1 1)) + 3 + (if next_batch_id (new_manager {||} 1 1) \<le> 3 then 1 else 0) \<le> 2 ^ 64"
    by (simp add: new_manager_def)
  from GetNextBatchId_ids [OF n t] n t b show ?thesis by simp
qed

text \<open>
  C7, as stated, fails: \<^verbatim>\<open>Handle\<close> inserts the sender whoever it is. With one replica, two
  notifications for the same transaction from two other identities leave a set of size two.
\<close>

theorem applied_set_exceeds_replicas:
  "run 0 (new_manager {|''replica1''|} 1 1) [applied_from ''x'' 1 5, applied_from ''y'' 2 5]
   = Inr ((new_manager {|''replica1''|} 1 1)
       \<lparr>next_msg_id := 3,
        txns_applied_on_replicas := [5 \<mapsto> {|''y'', ''x''|}],
        sent := [({|''x''|}, AckMsg 1 1), ({|''y''|}, AckMsg 2 2)]\<rparr>) \<and>
   \<not> fcard {|''y'', ''x''|} \<le> fcard {|''replica1''|}"
  by (simp add: eval_manager)

text \<open>
  C7, amended. When every applied-notification handled came from a configured replica, every
  set in the table holds replica identities only, so its size is at most the number of replicas.
\<close>

theorem applied_sets_within_replicas:
  assumes "run invalid_id (new_manager replica_ids first_msg_id first_batch_id) cs = Inr m"
    and "\<forall>n \<in> notifications cs. fst n |\<in>| replica_ids"
    and "txns_applied_on_replicas m t = Some applied"
  shows "applied |\<subseteq>| replica_ids \<and> fcard applied \<le> fcard replica_ids"
proof -
  have "txns_applied_on_replicas (new_manager replica_ids first_msg_id first_batch_id) = Map.empty"
    by (simp add: new_manager_def)
  from run_table [OF assms(1) this] assms(3)
  have "\<forall>r. r |\<in>| applied \<longrightarrow> (r, t) \<in> notifications cs" by blast
  with assms(2) have "applied |\<subseteq>| replica_ids" by fastforce
  then show ?thesis by (simp add: fcard_mono)
qed

theorem applied_sets_within_replicas_witness:
  "run 0 (new_manager two_replicas 1 1)
     [applied_from ''replica1'' 1 5, applied_from ''replica1'' 2 5, applied_from ''replica2'' 3 6]
   = Inr ((new_manager two_replicas 1 1)
       \<lparr>next_msg_id := 4,
        txns_applied_on_replicas := [5 \<mapsto> {|''replica1''|}, 6 \<mapsto> {|''replica2''|}],
        sent := [({|''replica1''|}, AckMsg 1 1), ({|''replica1''|}, AckMsg 2 2), ({|''replica2''|}, AckMsg 3 3)]\<rparr>) \<and>
   {|''replica1''|} |\<subseteq>| two_replicas \<and> fcard {|''replica1''|} \<le> fcard two_replicas"
proof -
  let ?cs = "[applied_from ''replica1'' 1 5, applied_from ''replica1'' 2 5, applied_from ''replica2'' 3 6]"
  let ?M = "(new_manager two_replicas 1 1)
       \<lparr>next_msg_id := 4,
        txns_applied_on_replicas := [5 \<mapsto> {|''replica1''|}, 6 \<mapsto> {|''replica2''|}],
        sent := [({|''replica1''|}, AckMsg 1 1), ({|''replica1''|}, AckMsg 2 2), ({|''replica2''|}, AckMsg 3 3)]\<rparr>"
  have r: "run 0 (new_manager two_replicas 1 1) ?cs = Inr ?M"
    by (simp add: eval_manager)
  have ok: "\<forall>n \<in> notifications ?cs. fst n |\<in>| two_replicas"
    by (simp add: notifications_def)
  have t: "txns_applied_on_replicas ?M 5 = Some {|''replica1''|}" by simp
  from applied_sets_within_replicas [OF r ok t] r show ?thesis by simp
qed

text \<open>
  C8. With policy \<open>DISABLE\<close> the assertion at the entry of \<^verbatim>\<open>ReplicateBatchOfRecords\<close> fails,
  and the call ends with an assertion failure exactly when the policy is \<open>DISABLE\<close>: under
  any other policy the failure cannot happen.
\<close>

theorem ReplicateBatchOfRecords_DISABLE:
  "ReplicateBatchOfRecords invalid_id records_batch commit_callbacks DISABLE m =
     Inl (AssertionFailure ''Replication is disabled, so why are we here?'') \<and>
   ((\<exists>e. ReplicateBatchOfRecords invalid_id records_batch commit_callbacks policy m = Inl e) = (policy = DISABLE))"
  by (simp add: ReplicateBatchOfRecords_eq)

text \<open>
  C9. In every state that a run reaches from a new manager, every batch in the queue has
  \<open>has_records\<close> set, and no callback has ever been called from the branch of
  \<^verbatim>\<open>ProcessTxnCallbacks\<close> for batches without records.
\<close>

theorem no_records_branch_unreachable:
  assumes "run invalid_id (new_manager replica_ids first_msg_id first_batch_id) cs = Inr m"
  shows "(\<forall>b \<in> set (txn_callbacks m). has_records b) \<and>
         (\<forall>e \<in> set (invoked m). fst e \<noteq> Drain_no_records)"
  using run_has_records [OF assms] run_no_Drain_no_records [OF assms]
  by (simp add: new_manager_def)

theorem no_records_branch_unreachable_witness:
  "run 0 (new_manager {|''replica1''|} 1 1)
     [Replicate (Some example_buffer) [callback_of 5, callback_of 6] SYNC, applied_from ''replica1'' 1 5]
   = Inr ((new_manager {|''replica1''|} 1 1)
       \<lparr>next_msg_id := 3, next_batch_id := 2, empty_buffer_queue := [example_buffer],
        txn_callbacks := [\<lparr>callbacks = [callback_of 6], has_records = True\<rparr>],
        invoked := [(Drain_applied, callback_of 5)],
        sent := [({|''replica1''|}, RecordsBatchMsg 1 1 example_buffer), ({|''replica1''|}, AckMsg 2 1)]\<rparr>) \<and>
   list_all has_records [\<lparr>callbacks = [callback_of 6], has_records = True\<rparr>] \<and>
   list_all (\<lambda>e. fst e \<noteq> Drain_no_records) [(Drain_applied, callback_of 5)]"
proof -
  let ?cs = "[Replicate (Some example_buffer) [callback_of 5, callback_of 6] SYNC, applied_from ''replica1'' 1 5]"
  let ?M = "(new_manager {|''replica1''|} 1 1)
       \<lparr>next_msg_id := 3, next_batch_id := 2, empty_buffer_queue := [example_buffer],
        txn_callbacks := [\<lparr>callbacks = [callback_of 6], has_records = True\<rparr>],
        invoked := [(Drain_applied, callback_of 5)],
        sent := [({|''replica1''|}, RecordsBatchMsg 1 1 example_buffer), ({|''replica1''|}, AckMsg 2 1)]\<rparr>"
  have r: "run 0 (new_manager {|''replica1''|} 1 1) ?cs = Inr ?M"
    by (simp add: eval_manager)
  from no_records_branch_unreachable [OF r] r show ?thesis
    by (simp add: new_manager_def)
qed

text \<open>
  C10. When the insertion does not bring the size of the transaction's set to the number of
  replicas, \<^verbatim>\<open>Handle\<close> leaves the queue as it was and calls no callback: the manager differs
  from the one before only by the acknowledgement sent and by the sender in the transaction's set.
\<close>

theorem Handle_below_replica_count:
  assumes "fcard (finsert (GetRoutingId zmq_msg)
             (case txns_applied_on_replicas m (GetAppliedTxnId msg) of None \<Rightarrow> {||} | Some applied \<Rightarrow> applied))
           \<noteq> fcard (replicas m)"
  shows "txn_callbacks (Handle zmq_msg msg m) = txn_callbacks m \<and>
         invoked (Handle zmq_msg msg m) = invoked m \<and>
         Handle zmq_msg msg m =
           (SendAckForMessage zmq_msg msg m)\<lparr>txns_applied_on_replicas :=
              (txns_applied_on_replicas m)(GetAppliedTxnId msg \<mapsto>
                 finsert (GetRoutingId zmq_msg)
                   (case txns_applied_on_replicas m (GetAppliedTxnId msg) of
                      None \<Rightarrow> {||} | Some applied \<Rightarrow> applied))\<rparr>"
  using assms by (simp add: Handle_eq marked_def SendAckForMessage_eq)

theorem Handle_below_replica_count_witness:
  "fcard (finsert ''replica1'' {||}) \<noteq> fcard {|''replica1'', ''replica2''|} \<and>
   txn_callbacks (Handle \<lparr>GetRoutingId = ''replica1''\<rparr> \<lparr>GetMessageId = 9, GetAppliedTxnId = 5\<rparr>
      ((new_manager {|''replica1'', ''replica2''|} 1 1)
         \<lparr>txn_callbacks := [\<lparr>callbacks = [\<lparr>txn_start_time = 5, fn = 1, arg = 1\<rparr>], has_records = True\<rparr>]\<rparr>))
     = [\<lparr>callbacks = [\<lparr>txn_start_time = 5, fn = 1, arg = 1\<rparr>], has_records = True\<rparr>] \<and>
   invoked (Handle \<lparr>GetRoutingId = ''replica1''\<rparr> \<lparr>GetMessageId = 9, GetAppliedTxnId = 5\<rparr>
      ((new_manager {|''replica1'', ''replica2''|} 1 1)
         \<lparr>txn_callbacks := [\<lparr>callbacks = [\<lparr>txn_start_time = 5, fn = 1, arg = 1\<rparr>], has_records = True\<rparr>]\<rparr>))
     = []"
  using Handle_below_replica_count [of "\<lparr>GetRoutingId = ''replica1''\<rparr>"
      "(new_manager {|''replica1'', ''replica2''|} 1 1)
         \<lparr>txn_callbacks := [\<lparr>callbacks = [\<lparr>txn_start_time = 5, fn = 1, arg = 1\<rparr>], has_records = True\<rparr>]\<rparr>"
      "\<lparr>GetMessageId = 9, GetAppliedTxnId = 5\<rparr>"]
  by (simp add: new_manager_def fcard_finsert_if SendAckForMessage_eq)

end
